theory Spec2Isabelle
  imports Complex_Main
begin

section \<open>Common ground\<close>

text \<open>
  The Python floats of the program (float32 arrays of NumPy, float64 scalars) are read as
  real numbers where a float differs from the real number only by rounding.  Two places
  where the type of a number decides more than the last digits are modelled as the code
  has them: an array of integers truncates what is stored into it (the advantages of
  \<open>compute_returns_and_advantages\<close> on integer rewards), and a float32 counter stops
  counting at \<open>2^24\<close> (the occupancy of a node).  Every exception the modelled
  code can raise is a value of the type \<open>error\<close>; a function that can raise returns
  \<open>error + 'a\<close> with \<open>Inl\<close> for the exception.
\<close>

datatype error = IndexError | ValueError | ZeroDivisionError | AssertionError

text \<open>
  \<open>int(x)\<close> of a float, and the conversion of a float that is stored into an array
  of integers: both truncate towards zero.
\<close>

definition py_int :: "real \<Rightarrow> int" where
  "py_int x = (if 0 \<le> x then \<lfloor>x\<rfloor> else \<lceil>x\<rceil>)"

section \<open>The rollout buffer (buffer.py)\<close>

subsection \<open>Objects and references\<close>

text \<open>
  The buffer keeps six Python lists and hands NumPy arrays and tensors built from them
  to the trainer.  Lists, arrays and tensors are objects: a variable holds a reference,
  \<open>append\<close> and an indexed assignment change the object behind it.  The store is the
  list of all objects allocated so far and a reference is a position in it; allocation
  appends, so a new object never shares its reference with an older one.
\<close>

text \<open>
  A Python number is an \<open>int\<close> or a \<open>float\<close>.  \<open>add\<close> is annotated with
  \<open>reward: float\<close> and stores what it is given, so a list of rewards can hold both.
\<close>

datatype num = PyInt int | PyFloat real

fun num_val :: "num \<Rightarrow> real" where
  "num_val (PyInt i) = real_of_int i"
| "num_val (PyFloat x) = x"

fun is_int :: "num \<Rightarrow> bool" where
  "is_int (PyInt i) = True"
| "is_int (PyFloat x) = False"

fun the_int :: "num \<Rightarrow> int" where
  "the_int (PyInt i) = i"
| "the_int (PyFloat x) = py_int x"

text \<open>
  The objects: a list or array of floats, a list or array of integers, of booleans, a
  list of arrays (or a matrix), and a Python list of numbers of either kind.
\<close>

datatype obj =
    FloatSeq "real list"
  | IntSeq "int list"
  | BoolSeq "bool list"
  | ArraySeq "real list list"
  | NumSeq "num list"

type_synonym addr = nat
type_synonym heap = "obj list"

definition alloc :: "obj \<Rightarrow> heap \<Rightarrow> addr \<times> heap" where
  "alloc v h = (length h, h @ [v])"

definition floats_at :: "heap \<Rightarrow> addr \<Rightarrow> real list" where
  "floats_at h a =
     (if a < length h then (case h ! a of FloatSeq xs \<Rightarrow> xs | _ \<Rightarrow> []) else [])"

definition ints_at :: "heap \<Rightarrow> addr \<Rightarrow> int list" where
  "ints_at h a =
     (if a < length h then (case h ! a of IntSeq xs \<Rightarrow> xs | _ \<Rightarrow> []) else [])"

definition bools_at :: "heap \<Rightarrow> addr \<Rightarrow> bool list" where
  "bools_at h a =
     (if a < length h then (case h ! a of BoolSeq xs \<Rightarrow> xs | _ \<Rightarrow> []) else [])"

definition arrays_at :: "heap \<Rightarrow> addr \<Rightarrow> real list list" where
  "arrays_at h a =
     (if a < length h then (case h ! a of ArraySeq xs \<Rightarrow> xs | _ \<Rightarrow> []) else [])"

definition nums_at :: "heap \<Rightarrow> addr \<Rightarrow> num list" where
  "nums_at h a =
     (if a < length h then (case h ! a of NumSeq xs \<Rightarrow> xs | _ \<Rightarrow> []) else [])"

text \<open>The entries of a numeric array, of floats or of integers, as numbers.\<close>

definition reals_at :: "heap \<Rightarrow> addr \<Rightarrow> real list" where
  "reals_at h a =
     (if a < length h
      then (case h ! a of FloatSeq xs \<Rightarrow> xs | IntSeq xs \<Rightarrow> map real_of_int xs | _ \<Rightarrow> [])
      else [])"

text \<open>\<open>lst.append(x)\<close> on the list object behind a reference.\<close>

definition append_float :: "addr \<Rightarrow> real \<Rightarrow> heap \<Rightarrow> heap" where
  "append_float a x h = h[a := FloatSeq (floats_at h a @ [x])]"

definition append_int :: "addr \<Rightarrow> int \<Rightarrow> heap \<Rightarrow> heap" where
  "append_int a x h = h[a := IntSeq (ints_at h a @ [x])]"

definition append_bool :: "addr \<Rightarrow> bool \<Rightarrow> heap \<Rightarrow> heap" where
  "append_bool a x h = h[a := BoolSeq (bools_at h a @ [x])]"

definition append_array :: "addr \<Rightarrow> real list \<Rightarrow> heap \<Rightarrow> heap" where
  "append_array a x h = h[a := ArraySeq (arrays_at h a @ [x])]"

definition append_num :: "addr \<Rightarrow> num \<Rightarrow> heap \<Rightarrow> heap" where
  "append_num a x h = h[a := NumSeq (nums_at h a @ [x])]"

subsection \<open>RolloutBuffer: construction, add, clear, length\<close>

text \<open>
  The attributes of a \<open>RolloutBuffer\<close> instance: six references to list objects.
  The lists hold what \<open>add\<close> is given: arrays for the states, integers for the
  actions, numbers for the rewards, booleans for the flags.  The log-probabilities and
  the values are read as reals: whether one of them is an \<open>int\<close> or a \<open>float\<close>
  changes no number that \<open>get\<close> or \<open>compute_returns_and_advantages\<close> computes.
  For the rewards it does, since the array of the advantages takes their type.
\<close>

record RolloutBuffer =
  states :: addr
  actions :: addr
  rewards :: addr
  log_probs :: addr
  values' :: addr
  dones :: addr

text \<open>
  \<open>__init__\<close> and \<open>clear\<close> run the same six assignments of a new empty list.
  \<open>__init__\<close> starts from an instance without attributes, \<open>clear\<close> overwrites
  those of \<open>self\<close>; the lists that were referenced before stay in the store untouched.
\<close>

definition assign_empty_lists :: "heap \<Rightarrow> RolloutBuffer \<times> heap" where
  "assign_empty_lists h0 =
     (let (s, h1) = alloc (ArraySeq []) h0;
          (a, h2) = alloc (IntSeq []) h1;
          (r, h3) = alloc (NumSeq []) h2;
          (l, h4) = alloc (FloatSeq []) h3;
          (v, h5) = alloc (FloatSeq []) h4;
          (d, h6) = alloc (BoolSeq []) h5
      in (\<lparr>states = s, actions = a, rewards = r, log_probs = l, values' = v, dones = d\<rparr>, h6))"

definition RolloutBuffer_init :: "heap \<Rightarrow> RolloutBuffer \<times> heap" where
  "RolloutBuffer_init h = assign_empty_lists h"

definition clear :: "RolloutBuffer \<times> heap \<Rightarrow> RolloutBuffer \<times> heap" where
  "clear sh = assign_empty_lists (snd sh)"

definition add ::
  "real list \<Rightarrow> int \<Rightarrow> num \<Rightarrow> real \<Rightarrow> real \<Rightarrow> bool \<Rightarrow>
     RolloutBuffer \<times> heap \<Rightarrow> RolloutBuffer \<times> heap" where
  "add state action reward log_prob val done sh =
     (let self = fst sh;
          h1 = append_array (states self) state (snd sh);
          h2 = append_int (actions self) action h1;
          h3 = append_num (rewards self) reward h2;
          h4 = append_float (log_probs self) log_prob h3;
          h5 = append_float (values' self) val h4;
          h6 = append_bool (dones self) done h5
      in (self, h6))"

definition buffer_len :: "RolloutBuffer \<times> heap \<Rightarrow> nat" where
  "buffer_len sh = length (arrays_at (snd sh) (states (fst sh)))"

text \<open>The calls a client can make to change a buffer, and a run of such calls.\<close>

datatype call = Add "real list" int num real real bool | Clear

fun do_call :: "call \<Rightarrow> RolloutBuffer \<times> heap \<Rightarrow> RolloutBuffer \<times> heap" where
  "do_call (Add state action reward log_prob val done) sh =
     add state action reward log_prob val done sh"
| "do_call Clear sh = clear sh"

fun do_calls :: "call list \<Rightarrow> RolloutBuffer \<times> heap \<Rightarrow> RolloutBuffer \<times> heap" where
  "do_calls [] sh = sh"
| "do_calls (c # cs) sh = do_calls cs (do_call c sh)"

text \<open>What the six lists of a buffer hold.\<close>

definition contents ::
  "RolloutBuffer \<times> heap \<Rightarrow>
     real list list \<times> int list \<times> num list \<times> real list \<times> real list \<times> bool list" where
  "contents sh =
     (let self = fst sh; h = snd sh
      in (arrays_at h (states self), ints_at h (actions self), nums_at h (rewards self),
          floats_at h (log_probs self), floats_at h (values' self), bools_at h (dones self)))"

type_synonym transition = "real list \<times> int \<times> num \<times> real \<times> real \<times> bool"

fun add_all :: "transition list \<Rightarrow> RolloutBuffer \<times> heap \<Rightarrow> RolloutBuffer \<times> heap" where
  "add_all [] sh = sh"
| "add_all ((state, action, reward, log_prob, val, done) # ts) sh =
     add_all ts (add state action reward log_prob val done sh)"

text \<open>
  The references of a buffer are in order when they are six different objects of the
  store.  Construction and \<open>clear\<close> establish this and \<open>add\<close> keeps it.
\<close>

definition buf_ok :: "RolloutBuffer \<times> heap \<Rightarrow> bool" where
  "buf_ok sh =
     (let self = fst sh; h = snd sh
      in distinct [states self, actions self, rewards self, log_probs self, values' self, dones self]
         \<and> states self < length h \<and> actions self < length h \<and> rewards self < length h
         \<and> log_probs self < length h \<and> values' self < length h \<and> dones self < length h)"

definition same_lengths ::
  "real list list \<times> int list \<times> num list \<times> real list \<times> real list \<times> bool list \<Rightarrow> bool" where
  "same_lengths c =
     (case c of (ss, as, rs, ls, vs, ds) \<Rightarrow>
        length as = length ss \<and> length rs = length ss \<and> length ls = length ss \<and>
        length vs = length ss \<and> length ds = length ss)"

subsection \<open>get and compute_returns_and_advantages\<close>

text \<open>
  A method that can raise returns its result or the exception, and the store as the
  call left it: an exception does not undo what was written before it.
\<close>

definition item :: "'a list \<Rightarrow> nat \<Rightarrow> error + 'a" where
  "item xs i = (if i < length xs then Inr (xs ! i) else Inl IndexError)"

text \<open>
  \<open>np.array(self.states)\<close> needs rows of one length to build a matrix;
  \<open>torch.FloatTensor\<close> and \<open>torch.LongTensor\<close> copy what they are given into a
  new tensor, \<open>torch.FloatTensor\<close> as floats.
\<close>

definition homogeneous :: "real list list \<Rightarrow> bool" where
  "homogeneous xss = (case xss of [] \<Rightarrow> True | xs # _ \<Rightarrow> list_all (\<lambda>ys. length ys = length xs) xss)"

definition get ::
  "RolloutBuffer \<times> heap \<Rightarrow> (error + addr \<times> addr \<times> addr \<times> addr \<times> addr) \<times> heap" where
  "get sh =
     (let self = fst sh; h0 = snd sh
      in if \<not> homogeneous (arrays_at h0 (states self)) then (Inl ValueError, h0)
         else
           let (np_states, h1) = alloc (ArraySeq (arrays_at h0 (states self))) h0;
               (states_t, h2) = alloc (ArraySeq (arrays_at h1 np_states)) h1;
               (actions_t, h3) = alloc (IntSeq (ints_at h2 (actions self))) h2;
               (rewards_t, h4) = alloc (FloatSeq (map num_val (nums_at h3 (rewards self)))) h3;
               (log_probs_t, h5) = alloc (FloatSeq (floats_at h4 (log_probs self))) h4;
               (values_t, h6) = alloc (FloatSeq (floats_at h5 (values' self))) h5
           in (Inr (states_t, actions_t, rewards_t, log_probs_t, values_t), h6))"

text \<open>
  \<open>np.array\<close> of a list of numbers is an array of integers when the list is not
  empty and holds only \<open>int\<close>s, and an array of floats otherwise.
  \<open>np.zeros_like\<close> gives zeros of the shape and of the type of its argument.
\<close>

definition int_dtype :: "num list \<Rightarrow> bool" where
  "int_dtype ns = (ns \<noteq> [] \<and> list_all is_int ns)"

definition np_array :: "num list \<Rightarrow> obj" where
  "np_array ns = (if int_dtype ns then IntSeq (map the_int ns) else FloatSeq (map num_val ns))"

fun np_zeros_like :: "obj \<Rightarrow> obj" where
  "np_zeros_like (FloatSeq xs) = FloatSeq (replicate (length xs) 0)"
| "np_zeros_like (IntSeq xs) = IntSeq (replicate (length xs) 0)"
| "np_zeros_like (BoolSeq xs) = BoolSeq (replicate (length xs) False)"
| "np_zeros_like (ArraySeq xss) = ArraySeq (map (\<lambda>xs. replicate (length xs) 0) xss)"
| "np_zeros_like (NumSeq ns) =
     (if int_dtype ns then IntSeq (replicate (length ns) 0) else FloatSeq (replicate (length ns) 0))"

text \<open>
  \<open>a[t] = x\<close> for a float \<open>x\<close> and a position \<open>t\<close> inside the array \<open>a\<close>: an
  array of floats takes \<open>x\<close>, an array of integers takes \<open>x\<close> truncated towards
  zero.  \<open>stored\<close> is what is read back from the position afterwards.
\<close>

definition np_setitem :: "addr \<Rightarrow> nat \<Rightarrow> real \<Rightarrow> heap \<Rightarrow> heap" where
  "np_setitem a t x h =
     (if a < length h
      then (case h ! a of
              FloatSeq xs \<Rightarrow> h[a := FloatSeq (xs[t := x])]
            | IntSeq xs \<Rightarrow> h[a := IntSeq (xs[t := py_int x])]
            | _ \<Rightarrow> h)
      else h)"

definition stored :: "bool \<Rightarrow> real \<Rightarrow> real" where
  "stored as_int x = (if as_int then real_of_int (py_int x) else x)"

fun int_array :: "obj \<Rightarrow> bool" where
  "int_array (IntSeq xs) = True"
| "int_array _ = False"

fun num_array :: "obj \<Rightarrow> bool" where
  "num_array (IntSeq xs) = True"
| "num_array (FloatSeq xs) = True"
| "num_array _ = False"

text \<open>
  The body of the loop of \<open>compute_returns_and_advantages\<close> at index \<open>t\<close>: it reads
  the arrays \<open>rewards\<close>, \<open>values\<close> and \<open>dones\<close>, and writes \<open>advantages[t]\<close>.
  \<open>1 - dones[t]\<close> is 0 for a true flag and 1 for a false one.  \<open>gamma\<close> and
  \<open>gae_lambda\<close> are floats, so \<open>delta\<close> and \<open>gae\<close> are floats whatever the type
  of the rewards; the variable \<open>gae\<close> keeps the float, and the array gets it as its
  type allows.
\<close>

definition gae_body ::
  "real \<Rightarrow> real \<Rightarrow> addr \<Rightarrow> addr \<Rightarrow> addr \<Rightarrow> addr \<Rightarrow> nat \<Rightarrow> real \<Rightarrow> heap \<Rightarrow> (error + real) \<times> heap" where
  "gae_body gamma gae_lambda rewards_a values_a dones_a advantages_a t gae h =
     (case (if int t = int (length (reals_at h rewards_a)) - 1 then Inr 0
            else item (floats_at h values_a) (t + 1)) of
        Inl e \<Rightarrow> (Inl e, h)
      | Inr next_value \<Rightarrow>
          (case item (reals_at h rewards_a) t of
             Inl e \<Rightarrow> (Inl e, h)
           | Inr r \<Rightarrow>
               (case item (bools_at h dones_a) t of
                  Inl e \<Rightarrow> (Inl e, h)
                | Inr d \<Rightarrow>
                    (case item (floats_at h values_a) t of
                       Inl e \<Rightarrow> (Inl e, h)
                     | Inr v \<Rightarrow>
                         (let delta = r + gamma * next_value * (1 - of_bool d) - v;
                              gae' = delta + gamma * gae_lambda * (1 - of_bool d) * gae
                          in if t < length (reals_at h advantages_a)
                             then (Inr gae', np_setitem advantages_a t gae' h)
                             else (Inl IndexError, h))))))"

text \<open>
  \<open>for t in reversed(range(len(rewards)))\<close>: the loop with \<open>k\<close> indices left runs
  the body at \<open>t = k - 1\<close> and goes on with \<open>k - 1\<close> indices.
\<close>

fun gae_loop ::
  "real \<Rightarrow> real \<Rightarrow> addr \<Rightarrow> addr \<Rightarrow> addr \<Rightarrow> addr \<Rightarrow> nat \<Rightarrow> real \<Rightarrow> heap \<Rightarrow> (error + real) \<times> heap" where
  "gae_loop gamma gae_lambda rewards_a values_a dones_a advantages_a 0 gae h = (Inr gae, h)"
| "gae_loop gamma gae_lambda rewards_a values_a dones_a advantages_a (Suc t) gae h =
     (case gae_body gamma gae_lambda rewards_a values_a dones_a advantages_a t gae h of
        (Inl e, h') \<Rightarrow> (Inl e, h')
      | (Inr gae', h') \<Rightarrow>
          gae_loop gamma gae_lambda rewards_a values_a dones_a advantages_a t gae' h')"

text \<open>
  An arithmetic operator on two one-dimensional NumPy arrays: elementwise for equal
  lengths, an array of one element is broadcast, any other pair of lengths raises.
\<close>

definition np_broadcast :: "('a \<Rightarrow> 'b \<Rightarrow> 'c) \<Rightarrow> 'a list \<Rightarrow> 'b list \<Rightarrow> error + 'c list" where
  "np_broadcast f xs ys =
     (if length xs = length ys then Inr (map2 f xs ys)
      else if length xs = 1 then Inr (map (\<lambda>y. f (hd xs) y) ys)
      else if length ys = 1 then Inr (map (\<lambda>x. f x (hd ys)) xs)
      else Inl ValueError)"

definition np_add :: "real list \<Rightarrow> real list \<Rightarrow> error + real list" where
  "np_add xs ys = np_broadcast (+) xs ys"

definition compute_returns_and_advantages ::
  "real \<Rightarrow> real \<Rightarrow> RolloutBuffer \<times> heap \<Rightarrow> (error + addr \<times> addr) \<times> heap" where
  "compute_returns_and_advantages gamma gae_lambda sh =
     (let self = fst sh; h0 = snd sh;
          (rewards_a, h1) = alloc (np_array (nums_at h0 (rewards self))) h0;
          (values_a, h2) = alloc (FloatSeq (floats_at h1 (values' self))) h1;
          (dones_a, h3) = alloc (BoolSeq (bools_at h2 (dones self))) h2;
          (advantages_a, h4) = alloc (np_zeros_like (h3 ! rewards_a)) h3;
          (returns_a, h5) = alloc (np_zeros_like (h4 ! rewards_a)) h4
      in case gae_loop gamma gae_lambda rewards_a values_a dones_a advantages_a
                (length (reals_at h5 rewards_a)) 0 h5 of
           (Inl e, h6) \<Rightarrow> (Inl e, h6)
         | (Inr gae, h6) \<Rightarrow>
             (case np_add (reals_at h6 advantages_a) (floats_at h6 values_a) of
                Inl e \<Rightarrow> (Inl e, h6)
              | Inr s \<Rightarrow>
                  (let (returns_a', h7) = alloc (FloatSeq s) h6;
                       (returns_t, h8) = alloc (FloatSeq (floats_at h7 returns_a')) h7;
                       (advantages_t, h9) = alloc (FloatSeq (reals_at h8 advantages_a)) h8
                   in (Inr (returns_t, advantages_t), h9))))"

text \<open>
  The recurrence of generalized advantage estimation as the specification words it, on
  the three sequences of a buffer of length \<open>T\<close>: \<open>next_value[t] = values[t+1]\<close> for
  \<open>t < T-1\<close> and \<open>next_value[T-1] = 0\<close>;
  \<open>delta[t] = reward[t] + gamma * next_value[t] * (1 - done[t]) - value[t]\<close>; the
  accumulator starts at 0 and \<open>advantage[t] = delta[t] + gamma * gae_lambda * (1 - done[t]) * advantage[t+1]\<close>.
\<close>

definition spec_next_value :: "real list \<Rightarrow> nat \<Rightarrow> real" where
  "spec_next_value vs t = (if t + 1 < length vs then vs ! (t + 1) else 0)"

definition spec_delta :: "real \<Rightarrow> real list \<Rightarrow> real list \<Rightarrow> bool list \<Rightarrow> nat \<Rightarrow> real" where
  "spec_delta gamma rs vs ds t =
     rs ! t + gamma * spec_next_value vs t * (1 - of_bool (ds ! t)) - vs ! t"

function spec_advantage ::
  "real \<Rightarrow> real \<Rightarrow> real list \<Rightarrow> real list \<Rightarrow> bool list \<Rightarrow> nat \<Rightarrow> real" where
  "spec_advantage gamma gae_lambda rs vs ds t =
     (if t < length rs
      then spec_delta gamma rs vs ds t
             + gamma * gae_lambda * (1 - of_bool (ds ! t)) * spec_advantage gamma gae_lambda rs vs ds (Suc t)
      else 0)"
  by pat_completeness auto
termination
  by (relation "measure (\<lambda>(gamma, gae_lambda, rs, vs, ds, t). length rs - t)") auto

definition spec_return ::
  "real \<Rightarrow> real \<Rightarrow> real list \<Rightarrow> real list \<Rightarrow> bool list \<Rightarrow> nat \<Rightarrow> real" where
  "spec_return gamma gae_lambda rs vs ds t = spec_advantage gamma gae_lambda rs vs ds t + vs ! t"


text \<open>
  What a caller of \<open>compute_returns_and_advantages\<close> gets, the entries of the two
  tensors \<open>(returns, advantages)\<close>, or the exception.
\<close>

definition returned_tensors ::
  "(error + addr \<times> addr) \<times> heap \<Rightarrow> error + real list \<times> real list" where
  "returned_tensors r =
     (case r of
        (Inl e, h) \<Rightarrow> Inl e
      | (Inr (ret_t, adv_t), h) \<Rightarrow> Inr (floats_at h ret_t, floats_at h adv_t))"
section \<open>The environment (environment.py)\<close>

subsection \<open>NumPy and Python primitives the environment uses\<close>

text \<open>
  An integer index \<open>i\<close> into an array of length \<open>n\<close>: \<open>0 \<le> i < n\<close> is the position
  \<open>i\<close>, \<open>-n \<le> i < 0\<close> counts from the end, anything else raises \<open>IndexError\<close>.
\<close>

definition np_index :: "nat \<Rightarrow> int \<Rightarrow> error + nat" where
  "np_index n i =
     (if 0 \<le> i \<and> i < int n then Inr (nat i)
      else if - int n \<le> i \<and> i < 0 then Inr (nat (int n + i))
      else Inl IndexError)"

definition np_getitem :: "'a list \<Rightarrow> int \<Rightarrow> error + 'a" where
  "np_getitem xs i = (case np_index (length xs) i of Inl e \<Rightarrow> Inl e | Inr k \<Rightarrow> Inr (xs ! k))"

text \<open>
  Division of floats in NumPy does not raise: a zero divisor gives \<open>nan\<close> or an infinity
  (and a warning).  The entries of an observation are therefore real numbers or one of
  these three values.
\<close>

datatype fval = Fin real | NaN | PosInf | NegInf

definition float_div :: "real \<Rightarrow> real \<Rightarrow> fval" where
  "float_div x y =
     (if y \<noteq> 0 then Fin (x / y) else if x = 0 then NaN else if 0 < x then PosInf else NegInf)"

definition np_true_divide :: "real list \<Rightarrow> real list \<Rightarrow> error + fval list" where
  "np_true_divide xs ys = np_broadcast float_div xs ys"

text \<open>\<open>lst.index(x)\<close>: the first position of \<open>x\<close>, \<open>ValueError\<close> when it is absent.\<close>

fun list_index :: "'a list \<Rightarrow> 'a \<Rightarrow> error + int" where
  "list_index [] x = Inl ValueError"
| "list_index (y # ys) x =
     (if y = x then Inr 0
      else (case list_index ys x of Inl e \<Rightarrow> Inl e | Inr k \<Rightarrow> Inr (k + 1)))"

text \<open>\<open>np.where(cond)[0]\<close>: the positions where the condition holds, in order.\<close>

definition np_where :: "('a \<Rightarrow> bool) \<Rightarrow> 'a list \<Rightarrow> nat list" where
  "np_where c xs = filter (\<lambda>i. c (xs ! i)) [0..<length xs]"

text \<open>
  The random generator is not modelled: each draw is an input, a natural number \<open>d\<close>.
  \<open>np_random.choice(xs)\<close> on a non-empty array returns one of its elements; the draw
  \<open>d\<close> selects the element at \<open>d mod len(xs)\<close>, so every element is selected by some
  draw and every draw selects an element.
\<close>

definition choice :: "nat \<Rightarrow> 'a list \<Rightarrow> 'a" where
  "choice d xs = xs ! (d mod length xs)"

text \<open>
  \<open>np_random.choice(n, p=ps)\<close> raises \<open>ValueError\<close> unless \<open>ps\<close> has \<open>n\<close> entries,
  none negative, whose sum is 1 up to the tolerance \<open>sqrt(eps)\<close> of float64, which is
  \<open>2^-26\<close>.  It returns a position whose probability is not zero.
\<close>

definition valid_p :: "nat \<Rightarrow> real list \<Rightarrow> bool" where
  "valid_p n ps =
     (length ps = n \<and> list_all (\<lambda>p. 0 \<le> p) ps \<and> \<bar>sum_list ps - 1\<bar> \<le> 1 / 2 ^ 26)"

definition choice_p :: "nat \<Rightarrow> nat \<Rightarrow> real list \<Rightarrow> error + nat" where
  "choice_p d n ps =
     (if valid_p n ps then Inr (choice d (filter (\<lambda>i. 0 < ps ! i) [0..<n]))
      else Inl ValueError)"

subsection \<open>ServiceDeploymentEnv\<close>

datatype info_val = Str string | Idx nat

type_synonym info = "(string \<times> info_val) list"

text \<open>
  The methods \<open>_get_observation\<close> and \<open>_generate_next_event\<close> are
  \<open>get_observation\<close> and \<open>generate_next_event\<close> here.
  The attributes of a \<open>ServiceDeploymentEnv\<close>.  \<open>action_space\<close> is the size of the
  discrete action space and \<open>observation_space\<close> the length of the observation
  vectors.  The three arrays hold float32 values.  The status of a node is 0 or 1, and
  the capacity is read as the real number that was configured.
\<close>

record env =
  num_nodes :: int
  num_services :: int
  max_agents :: int
  default_node_capacity :: real
  event_probabilities :: "real list"
  EVENT_TYPES :: "string list"
  num_event_types :: nat
  action_space :: int
  observation_space :: int
  node_status :: "real list"
  node_occupancy :: "real list"
  node_capacity :: "real list"
  num_agents :: int
  current_event :: string
  current_event_idx :: int
  steps :: int
  max_steps :: int

text \<open>
  The occupancy of a node is a float32 that starts at 0 and changes by \<open>+= 1.0\<close>,
  by \<open>-= 1.0\<close> and by \<open>= 0.0\<close> only, so it is a whole number.  float32 holds every
  whole number up to \<open>2^24 = 16777216\<close>, and on these \<open>x - 1.0\<close> is exact and
  \<open>x + 1.0\<close> is exact below \<open>2^24\<close>.  But \<open>2^24 + 1\<close> is not a float32: the sum
  is rounded (to even) to \<open>2^24\<close>, so that \<open>+= 1.0\<close> leaves an occupancy of
  \<open>2^24\<close> as it is.  \<open>f32_add_one\<close> is \<open>x + 1.0\<close> in float32 on the whole numbers
  from 0 to \<open>2^24\<close>, the only values an occupancy takes.
\<close>

definition f32_add_one :: "real \<Rightarrow> real" where
  "f32_add_one x = (if x < 2 ^ 24 then x + 1 else x)"

definition get_observation :: "env \<Rightarrow> error + fval list" where
  "get_observation self =
     (case np_index (num_event_types self) (current_event_idx self) of
        Inl e \<Rightarrow> Inl e
      | Inr k \<Rightarrow>
          (let event_onehot = (replicate (num_event_types self) 0)[k := 1]
           in case np_true_divide (node_occupancy self) (node_capacity self) of
                Inl e \<Rightarrow> Inl e
              | Inr normalized \<Rightarrow>
                  if max_agents self = 0 then Inl ZeroDivisionError
                  else Inr (map Fin event_onehot @ map Fin (node_status self) @ normalized
                            @ [Fin (real_of_int (num_agents self) / real_of_int (max_agents self))])))"

text \<open>
  A method returns its result or the exception it raised, and the environment as the
  call left it.  \<open>np.ones\<close>, \<open>np.zeros\<close> and \<open>np.full\<close> raise \<open>ValueError\<close> for a
  negative length.
\<close>

definition reset :: "env \<Rightarrow> (error + fval list \<times> info) \<times> env" where
  "reset self =
     (if num_nodes self < 0 then (Inl ValueError, self)
      else
        let n = nat (num_nodes self);
            s1 = self\<lparr>node_status := replicate n 1,
                      node_occupancy := replicate n 0,
                      node_capacity := replicate n (default_node_capacity self),
                      num_agents := 0,
                      current_event := ''no_event''\<rparr>
        in case list_index (EVENT_TYPES s1) (current_event s1) of
             Inl e \<Rightarrow> (Inl e, s1)
           | Inr k \<Rightarrow>
               (let s2 = s1\<lparr>current_event_idx := k, steps := 0, max_steps := 100\<rparr>
                in case get_observation s2 of
                     Inl e \<Rightarrow> (Inl e, s2)
                   | Inr obs \<Rightarrow> (Inr (obs, []), s2)))"

text \<open>
  \<open>__init__\<close>.  A missing or empty \<open>event_probabilities\<close> is replaced by the default
  (\<open>event_probabilities or [...]\<close>).  \<open>spaces.Discrete(n)\<close> asserts \<open>n > 0\<close>;
  \<open>spaces.Box\<close> is taken to accept its arguments.  The attributes that \<open>reset\<close>
  assigns do not exist before it runs; they stand as empty values here.  The
  constructor gives the new environment or the exception.
\<close>

definition ServiceDeploymentEnv_init ::
  "int \<Rightarrow> int \<Rightarrow> int \<Rightarrow> real \<Rightarrow> real list option \<Rightarrow> error + env" where
  "ServiceDeploymentEnv_init num_nodes0 num_services0 max_agents0 node_capacity0 event_probabilities0 =
     (let types = [''agent_arrival'', ''agent_departure'', ''node_failure'', ''node_recovery'',
                   ''no_event''];
          self = \<lparr>num_nodes = num_nodes0,
                  num_services = num_services0,
                  max_agents = max_agents0,
                  default_node_capacity = node_capacity0,
                  event_probabilities =
                    (case event_probabilities0 of
                       None \<Rightarrow> [3 / 10, 2 / 10, 1 / 10, 1 / 10, 3 / 10]
                     | Some ps \<Rightarrow> if ps = [] then [3 / 10, 2 / 10, 1 / 10, 1 / 10, 3 / 10] else ps),
                  EVENT_TYPES = types,
                  num_event_types = length types,
                  action_space = num_nodes0 + 1,
                  observation_space = int (length types) + num_nodes0 + num_nodes0 + 1,
                  node_status = [], node_occupancy = [], node_capacity = [],
                  num_agents = 0, current_event = [], current_event_idx = 0,
                  steps = 0, max_steps = 0\<rparr>
      in if \<not> 0 < num_nodes0 + 1 then Inl AssertionError
         else (case reset self of (Inl e, s) \<Rightarrow> Inl e | (Inr r, s) \<Rightarrow> Inr s))"

text \<open>
  The four branches of \<open>step\<close> that do something, one per kind of event.  Each gives
  the reward and the \<open>info\<close> dictionary, or the exception, and the environment it leaves.
\<close>

definition on_agent_arrival :: "int \<Rightarrow> env \<Rightarrow> (error + real \<times> info) \<times> env" where
  "on_agent_arrival action self =
     (if action < num_nodes self then
        (let node_idx = action;
             failed = (Inr (- 1, [(''deployment'', Str ''failed'')]), self)
         in case np_getitem (node_status self) node_idx of
              Inl e \<Rightarrow> (Inl e, self)
            | Inr st \<Rightarrow>
                if st = 1 then
                  (case np_getitem (node_occupancy self) node_idx of
                     Inl e \<Rightarrow> (Inl e, self)
                   | Inr occ \<Rightarrow>
                       (case np_getitem (node_capacity self) node_idx of
                          Inl e \<Rightarrow> (Inl e, self)
                        | Inr cap \<Rightarrow>
                            if occ < cap then
                              (case np_index (length (node_occupancy self)) node_idx of
                                 Inl e \<Rightarrow> (Inl e, self)
                               | Inr k \<Rightarrow>
                                   (Inr (1, [(''deployment'', Str ''success'')]),
                                    self\<lparr>node_occupancy := (node_occupancy self)[k := f32_add_one occ],
                                         num_agents := num_agents self + 1\<rparr>))
                            else failed))
                else failed)
      else (Inr (- (1 / 2), [(''deployment'', Str ''rejected'')]), self))"

definition on_agent_departure :: "nat \<Rightarrow> env \<Rightarrow> (error + real \<times> info) \<times> env" where
  "on_agent_departure d self =
     (if 0 < num_agents self then
        (let occupied_nodes = np_where (\<lambda>x. 0 < x) (node_occupancy self)
         in if 0 < length occupied_nodes then
              (let node_idx = choice d occupied_nodes
               in (Inr (0, []),
                   self\<lparr>node_occupancy :=
                          (node_occupancy self)[node_idx := node_occupancy self ! node_idx - 1],
                        num_agents := num_agents self - 1\<rparr>))
            else (Inr (0, []), self))
      else (Inr (0, []), self))"

text \<open>
  In \<open>int(self.num_agents - lost_services)\<close> the difference of a Python \<open>int\<close> and
  a float32 is a float (a float32 or a float64, by the promotion rules of the NumPy
  version).  Either is exact when \<open>num_agents\<close> is at most \<open>2^24\<close>, and the
  difference is computed exactly here; what is proved below about \<open>num_agents\<close>
  after a failure is proved for configurations that keep it in that range.
\<close>

definition on_node_failure :: "nat \<Rightarrow> env \<Rightarrow> (error + real \<times> info) \<times> env" where
  "on_node_failure d self =
     (let active_nodes = np_where (\<lambda>x. x = 1) (node_status self)
      in if 0 < length active_nodes then
           (let failed_node = choice d active_nodes;
                s1 = self\<lparr>node_status := (node_status self)[failed_node := 0]\<rparr>
            in if \<not> failed_node < length (node_occupancy s1) then (Inl IndexError, s1)
               else
                 (let lost_services = node_occupancy s1 ! failed_node;
                      s2 = s1\<lparr>node_occupancy := (node_occupancy s1)[failed_node := 0]\<rparr>;
                      s3 = s2\<lparr>num_agents :=
                                max 0 (py_int (real_of_int (num_agents s2) - lost_services))\<rparr>
                  in (Inr (- 2 * lost_services, [(''node_failure'', Idx failed_node)]), s3)))
         else (Inr (0, []), self))"

definition on_node_recovery :: "nat \<Rightarrow> env \<Rightarrow> (error + real \<times> info) \<times> env" where
  "on_node_recovery d self =
     (let failed_nodes = np_where (\<lambda>x. x = 0) (node_status self)
      in if 0 < length failed_nodes then
           (let recovered_node = choice d failed_nodes
            in (Inr (1 / 2, [(''node_recovery'', Idx recovered_node)]),
                self\<lparr>node_status := (node_status self)[recovered_node := 1]\<rparr>))
         else (Inr (0, []), self))"

definition generate_next_event :: "nat \<Rightarrow> env \<Rightarrow> (error + unit) \<times> env" where
  "generate_next_event d self =
     (case choice_p d (length (EVENT_TYPES self)) (event_probabilities self) of
        Inl e \<Rightarrow> (Inl e, self)
      | Inr k \<Rightarrow>
          (Inr (), self\<lparr>current_event_idx := int k, current_event := EVENT_TYPES self ! k\<rparr>))"

text \<open>
  \<open>step(action)\<close> with its two draws: \<open>d_node\<close> for the node that an event picks and
  \<open>d_event\<close> for the next event.  The result is
  \<open>(observation, reward, terminated, truncated, info)\<close>.
\<close>

definition step ::
  "nat \<Rightarrow> nat \<Rightarrow> int \<Rightarrow> env \<Rightarrow> (error + fval list \<times> real \<times> bool \<times> bool \<times> info) \<times> env" where
  "step d_node d_event action self =
     (case (if current_event self = ''agent_arrival'' then on_agent_arrival action self
            else if current_event self = ''agent_departure'' then on_agent_departure d_node self
            else if current_event self = ''node_failure'' then on_node_failure d_node self
            else if current_event self = ''node_recovery'' then on_node_recovery d_node self
            else (Inr (0, []), self)) of
        (Inl e, s1) \<Rightarrow> (Inl e, s1)
      | (Inr (reward, info), s1) \<Rightarrow>
          (case generate_next_event d_event (s1\<lparr>steps := steps s1 + 1\<rparr>) of
             (Inl e, s2) \<Rightarrow> (Inl e, s2)
           | (Inr u, s2) \<Rightarrow>
               (let terminated = (max_steps s2 \<le> steps s2);
                    truncated = False
                in case get_observation s2 of
                     Inl e \<Rightarrow> (Inl e, s2)
                   | Inr obs \<Rightarrow> (Inr (obs, reward, terminated, truncated, info), s2))))"

text \<open>
  The environments a program can hold: what the constructor returns, and what
  \<open>reset\<close> and \<open>step\<close> leave, whether they return or raise.
\<close>

inductive reachable :: "env \<Rightarrow> bool" where
  constructed:
    "ServiceDeploymentEnv_init n k m c ps = Inr s \<Longrightarrow> reachable s"
| after_reset: "reachable s \<Longrightarrow> reachable (snd (reset s))"
| after_step: "reachable s \<Longrightarrow> reachable (snd (step d_node d_event action s))"

text \<open>
  What holds of every reachable environment: the fixed part, set by the constructor,
  and the part that \<open>reset\<close> and \<open>step\<close> change.
\<close>

definition config_ok :: "env \<Rightarrow> bool" where
  "config_ok s =
     (0 \<le> num_nodes s \<and> max_agents s \<noteq> 0
      \<and> EVENT_TYPES s = [''agent_arrival'', ''agent_departure'', ''node_failure'',
                          ''node_recovery'', ''no_event'']
      \<and> num_event_types s = 5
      \<and> action_space s = num_nodes s + 1
      \<and> observation_space s = 5 + 2 * num_nodes s + 1)"

text \<open>
  The configurations in which the float32 arrays count exactly: the capacity is a whole
  number and \<open>num_nodes * capacity\<close> is at most \<open>2^24\<close>, so that no occupancy and no
  number of agents goes beyond \<open>2^24\<close>.
\<close>

definition counts_exact :: "env \<Rightarrow> bool" where
  "counts_exact s =
     (default_node_capacity s \<in> \<nat>
      \<and> real_of_int (num_nodes s) * default_node_capacity s \<le> 2 ^ 24)"

definition nodes_ok :: "env \<Rightarrow> bool" where
  "nodes_ok s =
     (length (node_status s) = nat (num_nodes s)
      \<and> length (node_occupancy s) = nat (num_nodes s)
      \<and> node_capacity s = replicate (nat (num_nodes s)) (default_node_capacity s)
      \<and> (\<forall>i < nat (num_nodes s).
            (node_status s ! i = 0 \<or> node_status s ! i = 1)
            \<and> node_occupancy s ! i \<in> \<nat>
            \<and> node_occupancy s ! i \<le> 2 ^ 24
            \<and> (node_occupancy s ! i = 0 \<or> node_occupancy s ! i < default_node_capacity s + 1)
            \<and> (node_status s ! i = 0 \<longrightarrow> node_occupancy s ! i = 0))
      \<and> (counts_exact s \<longrightarrow> real_of_int (num_agents s) = sum_list (node_occupancy s)))"

definition clock_ok :: "env \<Rightarrow> bool" where
  "clock_ok s =
     (0 \<le> current_event_idx s \<and> current_event_idx s < 5
      \<and> current_event s = EVENT_TYPES s ! nat (current_event_idx s)
      \<and> 0 \<le> steps s \<and> max_steps s = 100)"

definition env_inv :: "env \<Rightarrow> bool" where
  "env_inv s = (config_ok s \<and> nodes_ok s \<and> clock_ok s)"

text \<open>The first part of \<open>step\<close>, the chain of branches on the current event, by itself.\<close>

definition event_effect :: "nat \<Rightarrow> int \<Rightarrow> env \<Rightarrow> (error + real \<times> info) \<times> env" where
  "event_effect d_node action self =
     (if current_event self = ''agent_arrival'' then on_agent_arrival action self
      else if current_event self = ''agent_departure'' then on_agent_departure d_node self
      else if current_event self = ''node_failure'' then on_node_failure d_node self
      else if current_event self = ''node_recovery'' then on_node_recovery d_node self
      else (Inr (0, []), self))"

text \<open>
  The environment after a sequence of \<open>step\<close> calls, each with its two draws and its
  action.
\<close>

fun run_steps :: "(nat \<times> nat \<times> int) list \<Rightarrow> env \<Rightarrow> env" where
  "run_steps [] s = s"
| "run_steps ((d_node, d_event, action) # cs) s = run_steps cs (snd (step d_node d_event action s))"

text \<open>\<open>ServiceDeploymentEnv()\<close>, the environment of the default arguments.\<close>

definition default_env :: env where
  "default_env = projr (ServiceDeploymentEnv_init 3 5 10 5 None)"


text \<open>
  The reward of a call of \<open>step\<close>, or the exception.
\<close>

definition reward_of ::
  "(error + fval list \<times> real \<times> bool \<times> bool \<times> info) \<times> env \<Rightarrow> error + real" where
  "reward_of r = (case fst r of Inl e \<Rightarrow> Inl e | Inr (obs, reward, rest) \<Rightarrow> Inr reward)"

text \<open>
  An environment with one node whose capacity \<open>2^25 = 33554432\<close> is above \<open>2^24\<close>
  and with arrivals as the only events: \<open>ServiceDeploymentEnv(num_nodes=1,
  max_agents=m, node_capacity=33554432.0, event_probabilities=[1, 0, 0, 0, 0])\<close>.
  \<open>arrivals_state m k\<close> is this environment after its first step and \<open>k\<close> more
  steps with action 0, each of them an accepted arrival.
\<close>

definition arrivals_env :: "int \<Rightarrow> env" where
  "arrivals_env m = projr (ServiceDeploymentEnv_init 1 5 m 33554432 (Some [1, 0, 0, 0, 0]))"

definition arrivals_state :: "int \<Rightarrow> nat \<Rightarrow> env" where
  "arrivals_state m k =
     \<lparr>num_nodes = 1, num_services = 5, max_agents = m, default_node_capacity = 33554432,
      event_probabilities = [1, 0, 0, 0, 0],
      EVENT_TYPES = [''agent_arrival'', ''agent_departure'', ''node_failure'', ''node_recovery'',
                     ''no_event''],
      num_event_types = 5, action_space = 2, observation_space = 8,
      node_status = [1], node_occupancy = [min (real k) 16777216], node_capacity = [33554432],
      num_agents = int k, current_event = ''agent_arrival'', current_event_idx = 0,
      steps = int k + 1, max_steps = 100\<rparr>"
section \<open>The PPO trainer (ppo_trainer.py)\<close>

text \<open>
  The tensors of \<open>update\<close> are lists of reals.  \<open>torch.clamp(x, lo, hi)\<close> is
  \<open>min(max(x, lo), hi)\<close> on every entry (for \<open>lo > hi\<close> that is \<open>hi\<close>), and the mean
  of a tensor is the sum of its entries over their number.  The mean of an empty tensor
  is \<open>nan\<close> in torch and has no meaning here; \<open>update\<close> takes means over mini-batches
  only, and a mini-batch is not empty.
\<close>

definition clamp :: "real \<Rightarrow> real \<Rightarrow> real \<Rightarrow> real" where
  "clamp x lo hi = min (max x lo) hi"

definition tensor_mean :: "real list \<Rightarrow> real" where
  "tensor_mean xs = sum_list xs / real (length xs)"

text \<open>
  The mini-batches of one epoch: \<open>for start_idx in range(0, len(states), batch_size)\<close>
  with \<open>batch_indices = indices[start_idx:min(start_idx + batch_size, len(states))]\<close>.
  \<open>range\<close> raises \<open>ValueError\<close> for a step of 0 and is empty for a negative step.
\<close>

definition py_range_step :: "nat \<Rightarrow> int \<Rightarrow> error + nat list" where
  "py_range_step n stride =
     (if stride = 0 then Inl ValueError
      else if stride < 0 then Inr []
      else Inr (map (\<lambda>k. k * nat stride) [0..<(n + nat stride - 1) div nat stride]))"

definition minibatches :: "'a list \<Rightarrow> int \<Rightarrow> error + 'a list list" where
  "minibatches indices batch_size =
     (case py_range_step (length indices) batch_size of
        Inl e \<Rightarrow> Inl e
      | Inr starts \<Rightarrow>
          Inr (map (\<lambda>start_idx.
                      let end_idx = min (start_idx + nat batch_size) (length indices)
                      in take (end_idx - start_idx) (drop start_idx indices))
                 starts))"

text \<open>
  The losses of one mini-batch.  \<open>batch_log_probs\<close>, \<open>batch_values\<close> and
  \<open>batch_entropy\<close> are what \<open>policy.evaluate\<close> returned for the mini-batch, the
  source's \<open>log_probs\<close>, \<open>values\<close> and \<open>entropy\<close> (the network is not part of this
  development); the other four tensors are the entries of the buffer's tensors, of the
  returns and of the normalized advantages at the indices of the mini-batch.  All seven
  have the length of the mini-batch.
\<close>

record losses =
  policy_loss :: real
  value_loss :: real
  entropy_loss :: real
  loss :: real

definition minibatch_losses ::
  "real \<Rightarrow> real \<Rightarrow> real \<Rightarrow> real list \<Rightarrow> real list \<Rightarrow> real list \<Rightarrow>
     real list \<Rightarrow> real list \<Rightarrow> real list \<Rightarrow> real list \<Rightarrow> losses" where
  "minibatch_losses clip_epsilon value_coef entropy_coef batch_log_probs batch_values batch_entropy
       batch_old_log_probs batch_returns batch_advantages batch_old_values =
     (let ratio = map exp (map2 (-) batch_log_probs batch_old_log_probs);
          surr1 = map2 (*) ratio batch_advantages;
          surr2 = map2 (*) (map (\<lambda>r. clamp r (1 - clip_epsilon) (1 + clip_epsilon)) ratio)
                    batch_advantages;
          policy_loss0 = - tensor_mean (map2 min surr1 surr2);
          values_clipped =
            map2 (+) batch_old_values
              (map (\<lambda>d. clamp d (- clip_epsilon) clip_epsilon) (map2 (-) batch_values batch_old_values));
          value_loss1 = map (\<lambda>d. d ^ 2) (map2 (-) batch_values batch_returns);
          value_loss2 = map (\<lambda>d. d ^ 2) (map2 (-) values_clipped batch_returns);
          value_loss0 = tensor_mean (map2 max value_loss1 value_loss2);
          entropy_loss0 = - tensor_mean batch_entropy
      in \<lparr>policy_loss = policy_loss0, value_loss = value_loss0, entropy_loss = entropy_loss0,
          loss = policy_loss0 + value_coef * value_loss0 + entropy_coef * entropy_loss0\<rparr>)"

section \<open>Properties of the rollout buffer\<close>

subsection \<open>The six sequences stay parallel\<close>

lemma floats_at_update:
  "floats_at (h[a := v]) b =
     (if b = a \<and> a < length h then (case v of FloatSeq xs \<Rightarrow> xs | _ \<Rightarrow> []) else floats_at h b)"
  by (simp add: floats_at_def)

lemma ints_at_update:
  "ints_at (h[a := v]) b =
     (if b = a \<and> a < length h then (case v of IntSeq xs \<Rightarrow> xs | _ \<Rightarrow> []) else ints_at h b)"
  by (simp add: ints_at_def)

lemma bools_at_update:
  "bools_at (h[a := v]) b =
     (if b = a \<and> a < length h then (case v of BoolSeq xs \<Rightarrow> xs | _ \<Rightarrow> []) else bools_at h b)"
  by (simp add: bools_at_def)

lemma arrays_at_update:
  "arrays_at (h[a := v]) b =
     (if b = a \<and> a < length h then (case v of ArraySeq xs \<Rightarrow> xs | _ \<Rightarrow> []) else arrays_at h b)"
  by (simp add: arrays_at_def)

lemma nums_at_update:
  "nums_at (h[a := v]) b =
     (if b = a \<and> a < length h then (case v of NumSeq xs \<Rightarrow> xs | _ \<Rightarrow> []) else nums_at h b)"
  by (simp add: nums_at_def)

lemmas at_update = floats_at_update ints_at_update bools_at_update arrays_at_update nums_at_update

lemmas append_defs = append_float_def append_int_def append_bool_def append_array_def
  append_num_def

lemma assign_empty_lists_ok: "buf_ok (assign_empty_lists h)"
  by (simp add: assign_empty_lists_def alloc_def buf_ok_def)

lemma contents_assign_empty_lists: "contents (assign_empty_lists h) = ([], [], [], [], [], [])"
  by (simp add: assign_empty_lists_def alloc_def contents_def floats_at_def ints_at_def
      bools_at_def arrays_at_def nums_at_def nth_append)

lemma length_append_seq [simp]:
  "length (append_float a x h) = length h" "length (append_int a i h) = length h"
  "length (append_bool a b h) = length h" "length (append_array a s h) = length h"
  "length (append_num a n h) = length h"
  by (simp_all add: append_defs)

lemma at_append_other:
  "c \<noteq> a \<Longrightarrow> floats_at (append_float a x h) c = floats_at h c"
  "c \<noteq> a \<Longrightarrow> floats_at (append_int a i h) c = floats_at h c"
  "c \<noteq> a \<Longrightarrow> floats_at (append_bool a b h) c = floats_at h c"
  "c \<noteq> a \<Longrightarrow> floats_at (append_array a s h) c = floats_at h c"
  "c \<noteq> a \<Longrightarrow> floats_at (append_num a n h) c = floats_at h c"
  "c \<noteq> a \<Longrightarrow> ints_at (append_float a x h) c = ints_at h c"
  "c \<noteq> a \<Longrightarrow> ints_at (append_int a i h) c = ints_at h c"
  "c \<noteq> a \<Longrightarrow> ints_at (append_bool a b h) c = ints_at h c"
  "c \<noteq> a \<Longrightarrow> ints_at (append_array a s h) c = ints_at h c"
  "c \<noteq> a \<Longrightarrow> ints_at (append_num a n h) c = ints_at h c"
  "c \<noteq> a \<Longrightarrow> bools_at (append_float a x h) c = bools_at h c"
  "c \<noteq> a \<Longrightarrow> bools_at (append_int a i h) c = bools_at h c"
  "c \<noteq> a \<Longrightarrow> bools_at (append_bool a b h) c = bools_at h c"
  "c \<noteq> a \<Longrightarrow> bools_at (append_array a s h) c = bools_at h c"
  "c \<noteq> a \<Longrightarrow> bools_at (append_num a n h) c = bools_at h c"
  "c \<noteq> a \<Longrightarrow> arrays_at (append_float a x h) c = arrays_at h c"
  "c \<noteq> a \<Longrightarrow> arrays_at (append_int a i h) c = arrays_at h c"
  "c \<noteq> a \<Longrightarrow> arrays_at (append_bool a b h) c = arrays_at h c"
  "c \<noteq> a \<Longrightarrow> arrays_at (append_array a s h) c = arrays_at h c"
  "c \<noteq> a \<Longrightarrow> arrays_at (append_num a n h) c = arrays_at h c"
  "c \<noteq> a \<Longrightarrow> nums_at (append_float a x h) c = nums_at h c"
  "c \<noteq> a \<Longrightarrow> nums_at (append_int a i h) c = nums_at h c"
  "c \<noteq> a \<Longrightarrow> nums_at (append_bool a b h) c = nums_at h c"
  "c \<noteq> a \<Longrightarrow> nums_at (append_array a s h) c = nums_at h c"
  "c \<noteq> a \<Longrightarrow> nums_at (append_num a n h) c = nums_at h c"
  by (simp_all add: append_defs at_update)

lemma at_append_same:
  "a < length h \<Longrightarrow> floats_at (append_float a x h) a = floats_at h a @ [x]"
  "a < length h \<Longrightarrow> ints_at (append_int a i h) a = ints_at h a @ [i]"
  "a < length h \<Longrightarrow> bools_at (append_bool a b h) a = bools_at h a @ [b]"
  "a < length h \<Longrightarrow> arrays_at (append_array a s h) a = arrays_at h a @ [s]"
  "a < length h \<Longrightarrow> nums_at (append_num a n h) a = nums_at h a @ [n]"
  by (simp_all add: append_defs at_update)

lemma add_ok: "buf_ok sh \<Longrightarrow> buf_ok (add s a r l v d sh)"
  by (simp add: add_def buf_ok_def Let_def)

lemma contents_add:
  assumes "buf_ok sh" and "contents sh = (ss, as, rs, ls, vs, ds)"
  shows "contents (add s a r l v d sh) =
           (ss @ [s], as @ [a], rs @ [r], ls @ [l], vs @ [v], ds @ [d])"
proof -
  obtain self h where sh: "sh = (self, h)" by (cases sh)
  from assms(1) sh have d: "distinct [states self, actions self, rewards self, log_probs self, values' self, dones self]"
    and b: "states self < length h" "actions self < length h" "rewards self < length h"
      "log_probs self < length h" "values' self < length h" "dones self < length h"
    by (simp_all add: buf_ok_def)
  from d have ne: "states self \<noteq> actions self" "states self \<noteq> rewards self"
    "states self \<noteq> log_probs self" "states self \<noteq> values' self" "states self \<noteq> dones self"
    "actions self \<noteq> rewards self" "actions self \<noteq> log_probs self" "actions self \<noteq> values' self"
    "actions self \<noteq> dones self" "rewards self \<noteq> log_probs self" "rewards self \<noteq> values' self"
    "rewards self \<noteq> dones self" "log_probs self \<noteq> values' self" "log_probs self \<noteq> dones self"
    "values' self \<noteq> dones self"
    by simp_all
  from assms(2) sh have c: "arrays_at h (states self) = ss" "ints_at h (actions self) = as"
    "nums_at h (rewards self) = rs" "floats_at h (log_probs self) = ls"
    "floats_at h (values' self) = vs" "bools_at h (dones self) = ds"
    by (simp_all add: contents_def)
  show ?thesis
    unfolding sh add_def contents_def Let_def fst_conv snd_conv
    using b c by (simp add: at_append_other at_append_same ne ne [symmetric])
qed

lemma do_call_ok: "buf_ok sh \<Longrightarrow> buf_ok (do_call c sh)"
  by (cases c) (simp_all add: add_ok clear_def assign_empty_lists_ok)

lemma do_call_same_lengths:
  "buf_ok sh \<Longrightarrow> same_lengths (contents sh) \<Longrightarrow> same_lengths (contents (do_call c sh))"
proof (cases c)
  case (Add s a r l v d)
  assume ok: "buf_ok sh" and sl: "same_lengths (contents sh)"
  obtain ss as rs ls vs ds where c: "contents sh = (ss, as, rs, ls, vs, ds)"
    by (cases "contents sh") auto
  from contents_add [OF ok c] sl c Add show ?thesis
    by (simp add: same_lengths_def)
next
  case Clear
  then show ?thesis
    by (simp add: clear_def contents_assign_empty_lists same_lengths_def)
qed

lemma do_calls_inv:
  "buf_ok sh \<Longrightarrow> same_lengths (contents sh) \<Longrightarrow>
   buf_ok (do_calls cs sh) \<and> same_lengths (contents (do_calls cs sh))"
  by (induction cs arbitrary: sh) (simp_all add: do_call_ok do_call_same_lengths)

lemma contents_add_all:
  "buf_ok sh \<Longrightarrow> contents sh = (ss, as, rs, ls, vs, ds) \<Longrightarrow>
   contents (add_all ts sh) =
     (ss @ map fst ts, as @ map (fst \<circ> snd) ts, rs @ map (fst \<circ> snd \<circ> snd) ts,
      ls @ map (fst \<circ> snd \<circ> snd \<circ> snd) ts, vs @ map (fst \<circ> snd \<circ> snd \<circ> snd \<circ> snd) ts,
      ds @ map (snd \<circ> snd \<circ> snd \<circ> snd \<circ> snd) ts)"
proof (induction ts arbitrary: sh ss as rs ls vs ds)
  case Nil
  then show ?case by simp
next
  case (Cons t ts)
  obtain s a r l v d where t: "t = (s, a, r, l, v, d)" by (cases t) auto
  from Cons.IH [OF add_ok [OF Cons.prems(1)] contents_add [OF Cons.prems(1) Cons.prems(2)], of s a r l v d]
  show ?case by (simp add: t)
qed

text \<open>
  Claim C9.  After any sequence of \<open>add\<close> and \<open>clear\<close> calls on a newly constructed
  buffer the six sequences (states, actions, rewards, log_probs, values, dones) have the
  same length.  Right after \<open>clear\<close> the length of the buffer is 0, whatever the
  buffer was before.  A run of \<open>add\<close> calls after a \<open>clear\<close> leaves the same
  contents as the same run on a newly constructed buffer, one entry per call.
\<close>

theorem buffer_sequences_parallel:
  "same_lengths (contents (do_calls cs (RolloutBuffer_init h0)))
   \<and> buffer_len (clear sh) = 0
   \<and> contents (add_all ts (clear sh)) = contents (add_all ts (RolloutBuffer_init h0))
   \<and> buffer_len (add_all ts (clear sh)) = length ts"
proof -
  have i: "buf_ok (RolloutBuffer_init h0)" "same_lengths (contents (RolloutBuffer_init h0))"
    by (simp_all add: RolloutBuffer_init_def assign_empty_lists_ok contents_assign_empty_lists same_lengths_def)
  have c: "buf_ok (clear sh)" "contents (clear sh) = ([], [], [], [], [], [])"
    by (simp_all add: clear_def assign_empty_lists_ok contents_assign_empty_lists)
  have l: "buffer_len x = length (fst (contents x))" for x
    by (simp add: buffer_len_def contents_def Let_def)
  show ?thesis
    using do_calls_inv [OF i, of cs] contents_add_all [OF c, of ts]
      contents_add_all [OF i(1), of "[]" "[]" "[]" "[]" "[]" "[]" ts]
    by (simp add: l c RolloutBuffer_init_def contents_assign_empty_lists)
qed

theorem buffer_sequences_parallel_witness:
  "same_lengths (contents (do_calls [Add [1] 0 (PyFloat 1) 0 0 False, Clear, Add [0] 2 (PyInt 3) 0 1 True]
       (RolloutBuffer_init [])))
   \<and> buffer_len (clear (add [1] 0 (PyFloat 1) 0 0 False (RolloutBuffer_init []))) = 0
   \<and> contents (add_all [([0], 2, PyInt 3, 0, 1, True)]
         (clear (add [1] 0 (PyFloat 1) 0 0 False (RolloutBuffer_init []))))
       = contents (add_all [([0], 2, PyInt 3, 0, 1, True)] (RolloutBuffer_init []))
   \<and> buffer_len (add_all [([0], 2, PyInt 3, 0, 1, True)]
         (clear (add [1] 0 (PyFloat 1) 0 0 False (RolloutBuffer_init []))))
       = length [([0], 2, PyInt 3, 0, 1, True) :: transition]"
  by (rule buffer_sequences_parallel)

subsection \<open>The loop of generalized advantage estimation\<close>

declare spec_advantage.simps [simp del]

lemma np_setitem_frame:
  "length (np_setitem a t x h) = length h"
  "b \<noteq> a \<Longrightarrow> np_setitem a t x h ! b = h ! b"
  by (simp_all add: np_setitem_def split: obj.splits)

lemma np_setitem_reals:
  assumes "a < length h" and "num_array (h ! a)"
  shows "reals_at (np_setitem a t x h) a = (reals_at h a)[t := stored (int_array (h ! a)) x]"
    and "int_array (np_setitem a t x h ! a) = int_array (h ! a)"
    and "num_array (np_setitem a t x h ! a)"
  using assms
  by (cases "h ! a"; simp add: np_setitem_def reals_at_def stored_def map_update)+

lemma at_frame:
  assumes "length h' = length h" and "h' ! a = h ! a"
  shows "reals_at h' a = reals_at h a" "floats_at h' a = floats_at h a"
    "bools_at h' a = bools_at h a"
  using assms by (simp_all add: reals_at_def floats_at_def bools_at_def)

lemma gae_body_frame:
  "length (snd (gae_body g l ra va da aa t gae h)) = length h"
  "a \<noteq> aa \<Longrightarrow> snd (gae_body g l ra va da aa t gae h) ! a = h ! a"
  by (simp_all add: gae_body_def Let_def np_setitem_frame split: sum.splits)

lemma gae_loop_frame:
  "length (snd (gae_loop g l ra va da aa k gae h)) = length h \<and>
   (\<forall>a. a \<noteq> aa \<longrightarrow> snd (gae_loop g l ra va da aa k gae h) ! a = h ! a)"
proof (induction k arbitrary: gae h)
  case 0
  show ?case by simp
next
  case (Suc t)
  obtain r h' where b: "gae_body g l ra va da aa t gae h = (r, h')"
    by (cases "gae_body g l ra va da aa t gae h")
  have f: "length h' = length h" "\<And>a. a \<noteq> aa \<Longrightarrow> h' ! a = h ! a"
    using gae_body_frame(1) [of g l ra va da aa t gae h]
      gae_body_frame(2) [where g=g and l=l and ra=ra and va=va and da=da and aa=aa and t=t and gae=gae and h=h] b
    by simp_all
  show ?case
  proof (cases r)
    case (Inl e)
    with b f show ?thesis by simp
  next
    case (Inr gae')
    with b f Suc.IH [of gae' h'] show ?thesis by simp
  qed
qed

lemma gae_body_spec:
  assumes rd: "reals_at h ra = rs" "floats_at h va = vs" "bools_at h da = ds"
    and len: "length vs = length rs" "length ds = length rs" "length (reals_at h aa) = length rs"
    and t: "t < length rs"
    and gae: "gae = spec_advantage g l rs vs ds (Suc t)"
  shows "gae_body g l ra va da aa t gae h =
           (Inr (spec_advantage g l rs vs ds t),
            np_setitem aa t (spec_advantage g l rs vs ds t) h)"
proof -
  have nv: "(if int t = int (length rs) - 1 then Inr 0 else item vs (t + 1))
              = (Inr (spec_next_value vs t) :: error + real)"
    using t len by (auto simp add: item_def spec_next_value_def)
  have sa: "spec_advantage g l rs vs ds t =
              rs ! t + g * spec_next_value vs t * (1 - of_bool (ds ! t)) - vs ! t
              + g * l * (1 - of_bool (ds ! t)) * gae"
    using t gae by (simp add: spec_advantage.simps [of g l rs vs ds t] spec_delta_def)
  show ?thesis
    unfolding gae_body_def rd nv
    using t len by (simp add: item_def Let_def sa)
qed

lemma gae_loop_spec:
  assumes rd: "reals_at h ra = rs" "floats_at h va = vs" "bools_at h da = ds"
    and ne: "aa \<noteq> ra" "aa \<noteq> va" "aa \<noteq> da" and v: "aa < length h"
    and na: "num_array (h ! aa)" "int_array (h ! aa) = b"
    and len: "length vs = length rs" "length ds = length rs" "length (reals_at h aa) = length rs"
    and k: "k \<le> length rs"
    and gae: "gae = spec_advantage g l rs vs ds k"
    and fin: "\<forall>t. k \<le> t \<and> t < length rs \<longrightarrow>
                reals_at h aa ! t = stored b (spec_advantage g l rs vs ds t)"
  shows "\<exists>x h'. gae_loop g l ra va da aa k gae h = (Inr x, h') \<and>
           reals_at h' aa = map (\<lambda>t. stored b (spec_advantage g l rs vs ds t)) [0..<length rs]"
  using assms
proof (induction k arbitrary: gae h)
  case 0
  then show ?case by (auto intro: nth_equalityI)
next
  case (Suc t)
  let ?x = "spec_advantage g l rs vs ds t"
  let ?h = "np_setitem aa t ?x h"
  from Suc.prems have t: "t < length rs" by simp
  have b: "gae_body g l ra va da aa t gae h = (Inr ?x, ?h)"
    using Suc.prems t by (intro gae_body_spec) simp_all
  have v: "aa < length h" and na: "num_array (h ! aa)" and ib: "int_array (h ! aa) = b"
    using Suc.prems by simp_all
  have fa: "reals_at ?h aa = (reals_at h aa)[t := stored b ?x]"
    using np_setitem_reals(1) [OF v na, of t ?x] ib by simp
  have na': "num_array (?h ! aa)" "int_array (?h ! aa) = b"
    using np_setitem_reals(2,3) [OF v na, of t ?x] ib by simp_all
  have l: "length ?h = length h"
    by (rule np_setitem_frame)
  have same: "?h ! a = h ! a" if "a \<noteq> aa" for a
    using that by (rule np_setitem_frame)
  have oth: "reals_at ?h ra = rs" "floats_at ?h va = vs" "bools_at ?h da = ds"
    using Suc.prems(1-6) at_frame(1) [OF l same, of ra] at_frame(2) [OF l same, of va]
      at_frame(3) [OF l same, of da]
    by simp_all
  have "\<exists>x h'. gae_loop g l ra va da aa t ?x ?h = (Inr x, h') \<and>
           reals_at h' aa = map (\<lambda>t. stored b (spec_advantage g l rs vs ds t)) [0..<length rs]"
  proof (rule Suc.IH [OF oth])
    show "\<forall>u. t \<le> u \<and> u < length rs \<longrightarrow> reals_at ?h aa ! u = stored b (spec_advantage g l rs vs ds u)"
    proof (intro allI impI)
      fix u assume u: "t \<le> u \<and> u < length rs"
      show "reals_at ?h aa ! u = stored b (spec_advantage g l rs vs ds u)"
      proof (cases "u = t")
        case True
        with Suc.prems t show ?thesis by (simp add: fa)
      next
        case False
        with u have "Suc t \<le> u" by simp
        with u Suc.prems False show ?thesis by (simp add: fa)
      qed
    qed
  qed (use Suc.prems t fa na' l in simp_all)
  with b show ?case by simp
qed

lemma at_old:
  "a < length h \<Longrightarrow> floats_at (h @ ys) a = floats_at h a"
  "a < length h \<Longrightarrow> ints_at (h @ ys) a = ints_at h a"
  "a < length h \<Longrightarrow> bools_at (h @ ys) a = bools_at h a"
  "a < length h \<Longrightarrow> arrays_at (h @ ys) a = arrays_at h a"
  "a < length h \<Longrightarrow> nums_at (h @ ys) a = nums_at h a"
  "a < length h \<Longrightarrow> reals_at (h @ ys) a = reals_at h a"
  by (simp_all add: floats_at_def ints_at_def bools_at_def arrays_at_def nums_at_def
      reals_at_def nth_append)

lemma at_new:
  "length h \<le> a \<Longrightarrow> floats_at (h @ ys) a = floats_at ys (a - length h)"
  "length h \<le> a \<Longrightarrow> ints_at (h @ ys) a = ints_at ys (a - length h)"
  "length h \<le> a \<Longrightarrow> bools_at (h @ ys) a = bools_at ys (a - length h)"
  "length h \<le> a \<Longrightarrow> arrays_at (h @ ys) a = arrays_at ys (a - length h)"
  "length h \<le> a \<Longrightarrow> nums_at (h @ ys) a = nums_at ys (a - length h)"
  "length h \<le> a \<Longrightarrow> reals_at (h @ ys) a = reals_at ys (a - length h)"
  by (auto simp add: floats_at_def ints_at_def bools_at_def arrays_at_def nums_at_def
      reals_at_def nth_append)

lemma take_frame:
  assumes "length h' = length h" and "\<forall>a. a \<noteq> aa \<longrightarrow> h' ! a = h ! a" and "n \<le> aa"
  shows "take n h' = take n h"
  using assms by (intro nth_equalityI) simp_all

lemma get_frame: "take (length (snd sh)) (snd (get sh)) = snd sh"
  by (simp add: get_def alloc_def Let_def)

lemma np_array_reals:
  "(case np_array ns of FloatSeq xs \<Rightarrow> xs | IntSeq xs \<Rightarrow> map real_of_int xs | _ \<Rightarrow> [])
     = map num_val ns"
proof -
  have "list_all is_int ns \<Longrightarrow> map (real_of_int \<circ> the_int) ns = map num_val ns"
    by (induction ns) (auto elim: is_int.elims)
  then show ?thesis
    by (simp add: np_array_def int_dtype_def)
qed

lemma np_zeros_like_array:
  "(case np_zeros_like (np_array ns) of FloatSeq xs \<Rightarrow> xs | IntSeq xs \<Rightarrow> map real_of_int xs
      | _ \<Rightarrow> []) = replicate (length ns) 0"
  "int_array (np_zeros_like (np_array ns)) = int_dtype ns"
  "num_array (np_zeros_like (np_array ns))"
  by (simp_all add: np_array_def)
lemma compute_unfold:
  "compute_returns_and_advantages g l (self, h0) =
     (let ns = nums_at h0 (rewards self);
          vs = floats_at (h0 @ [np_array ns]) (values' self);
          ds = bools_at (h0 @ [np_array ns, FloatSeq vs]) (dones self);
          h5 = h0 @ [np_array ns, FloatSeq vs, BoolSeq ds, np_zeros_like (np_array ns),
                     np_zeros_like (np_array ns)]
      in case gae_loop g l (length h0) (Suc (length h0)) (Suc (Suc (length h0)))
                (Suc (Suc (Suc (length h0)))) (length ns) 0 h5 of
           (Inl e, h6) \<Rightarrow> (Inl e, h6)
         | (Inr gae, h6) \<Rightarrow>
             (case np_add (reals_at h6 (Suc (Suc (Suc (length h0))))) (floats_at h6 (Suc (length h0))) of
                Inl e \<Rightarrow> (Inl e, h6)
              | Inr s \<Rightarrow>
                  (Inr (Suc (length h6), Suc (Suc (length h6))),
                   h6 @ [FloatSeq s, FloatSeq s,
                         FloatSeq (reals_at (h6 @ [FloatSeq s, FloatSeq s]) (Suc (Suc (Suc (length h0)))))])))"
proof -
  have a: "(h0 @ x # ys) ! length h0 = x" for x ys
    by simp
  have r: "length (reals_at (h0 @ np_array ns # ys) (length h0)) = length ns" for ns ys
    by (simp add: reals_at_def np_array_reals)
  have b: "floats_at (h @ [FloatSeq xs]) (length h) = xs" for xs h
    by (simp add: floats_at_def)
  show ?thesis
    unfolding compute_returns_and_advantages_def alloc_def Let_def prod.case fst_conv snd_conv
      append_assoc append_Cons append_Nil list.size a r
    apply (simp only: add_Suc_right add_0_right b)
    apply (simp add: at_new cong: prod.case_cong sum.case_cong)
    done
qed

lemma compute_frame:
  "take (length (snd sh)) (snd (compute_returns_and_advantages g l sh)) = snd sh"
proof -
  obtain self h0 where sh: "sh = (self, h0)" by (cases sh)
  define ns where "ns = nums_at h0 (rewards self)"
  define vs where "vs = floats_at (h0 @ [np_array ns]) (values' self)"
  define ds where "ds = bools_at (h0 @ [np_array ns, FloatSeq vs]) (dones self)"
  define h5 where "h5 = h0 @ [np_array ns, FloatSeq vs, BoolSeq ds, np_zeros_like (np_array ns),
                     np_zeros_like (np_array ns)]"
  define res where "res = gae_loop g l (length h0) (Suc (length h0)) (Suc (Suc (length h0)))
                (Suc (Suc (Suc (length h0)))) (length ns) 0 h5"
  have fr: "length (snd res) = length h5 \<and>
      (\<forall>a. a \<noteq> Suc (Suc (Suc (length h0))) \<longrightarrow> snd res ! a = h5 ! a)"
    unfolding res_def by (rule gae_loop_frame)
  have "take (length h0) (snd res) = take (length h0) h5"
    using fr by (intro take_frame [where aa = "Suc (Suc (Suc (length h0)))"]) simp_all
  then have t: "take (length h0) (snd res) = h0"
    by (simp add: h5_def)
  from fr have l: "length h0 \<le> length (snd res)"
    by (simp add: h5_def)
  have c: "compute_returns_and_advantages g l (self, h0) =
     (case res of
           (Inl e, h6) \<Rightarrow> (Inl e, h6)
         | (Inr gae, h6) \<Rightarrow>
             (case np_add (reals_at h6 (Suc (Suc (Suc (length h0))))) (floats_at h6 (Suc (length h0))) of
                Inl e \<Rightarrow> (Inl e, h6)
              | Inr s \<Rightarrow>
                  (Inr (Suc (length h6), Suc (Suc (length h6))),
                   h6 @ [FloatSeq s, FloatSeq s,
                         FloatSeq (reals_at (h6 @ [FloatSeq s, FloatSeq s]) (Suc (Suc (Suc (length h0)))))])))"
    unfolding compute_unfold res_def h5_def ds_def vs_def ns_def Let_def ..
  show ?thesis
  proof (cases res)
    case (Pair r h6)
    with t l have "take (length h0) h6 = h0" "length h0 \<le> length h6" by simp_all
    then show ?thesis
      unfolding sh c Pair by (simp split: sum.splits)
  qed
qed

lemma map2_add_upt:
  assumes "length vs = n"
  shows "map2 (+) (map f [0..<n]) vs = map (\<lambda>t. f t + vs ! t) [0..<n]"
  using assms by (intro nth_equalityI) simp_all

text \<open>
  What \<open>compute_returns_and_advantages\<close> returns on any buffer: the advantages of the
  recurrence as the array of the advantages stores them, truncated when the rewards are
  all integers, and these plus the values.
\<close>

lemma compute_spec:
  assumes v: "rewards self < length h0" "values' self < length h0" "dones self < length h0"
    and rd: "nums_at h0 (rewards self) = ns" "floats_at h0 (values' self) = vs"
      "bools_at h0 (dones self) = ds"
    and len: "length vs = length ns" "length ds = length ns"
  shows "\<exists>ret_t adv_t h'.
           compute_returns_and_advantages g l (self, h0) = (Inr (ret_t, adv_t), h') \<and>
           floats_at h' adv_t =
             map (\<lambda>t. stored (int_dtype ns) (spec_advantage g l (map num_val ns) vs ds t))
               [0..<length ns] \<and>
           floats_at h' ret_t =
             map (\<lambda>t. stored (int_dtype ns) (spec_advantage g l (map num_val ns) vs ds t) + vs ! t)
               [0..<length ns]"
proof -
  let ?rs = "map num_val ns"
  let ?S = "\<lambda>t. stored (int_dtype ns) (spec_advantage g l ?rs vs ds t)"
  let ?adv = "map ?S [0..<length ns]"
  let ?ret = "map (\<lambda>t. ?S t + vs ! t) [0..<length ns]"
  let ?aa = "Suc (Suc (Suc (length h0)))"
  define h5 where "h5 = h0 @ [np_array ns, FloatSeq vs, BoolSeq ds, np_zeros_like (np_array ns),
                     np_zeros_like (np_array ns)]"
  have r5: "reals_at h5 (length h0) = ?rs" "floats_at h5 (Suc (length h0)) = vs"
    "bools_at h5 (Suc (Suc (length h0))) = ds"
    "reals_at h5 ?aa = replicate (length ns) 0"
    by (simp_all add: h5_def nth_append floats_at_def bools_at_def reals_at_def
        np_array_reals np_zeros_like_array)
  have o5: "h5 ! ?aa = np_zeros_like (np_array ns)"
    by (simp add: h5_def nth_append)
  have z: "spec_advantage g l ?rs vs ds (length ?rs) = 0"
    using spec_advantage.simps [of g l ?rs vs ds "length ?rs"] by simp
  have "\<exists>x h6. gae_loop g l (length h0) (Suc (length h0)) (Suc (Suc (length h0))) ?aa
                  (length ?rs) 0 h5 = (Inr x, h6) \<and>
                reals_at h6 ?aa = map ?S [0..<length ?rs]"
  proof (rule gae_loop_spec [OF r5(1-3)])
    show "Suc (Suc (Suc (length h0))) < length h5" by (simp add: h5_def)
    show "num_array (h5 ! ?aa)" "int_array (h5 ! ?aa) = int_dtype ns"
      unfolding o5 by (rule np_zeros_like_array)+
    show "0 = spec_advantage g l ?rs vs ds (length ?rs)"
      using z by simp
  qed (simp_all add: len r5)
  then obtain x h6 where
    lp: "gae_loop g l (length h0) (Suc (length h0)) (Suc (Suc (length h0))) ?aa (length ns) 0 h5 = (Inr x, h6)"
    and adv: "reals_at h6 ?aa = ?adv"
    by auto
  have fr: "length h6 = length h5" "h6 ! Suc (length h0) = h5 ! Suc (length h0)"
    using gae_loop_frame [of g l "length h0" "Suc (length h0)" "Suc (Suc (length h0))" ?aa
        "length ns" 0 h5] lp
    by simp_all
  have vs6: "floats_at h6 (Suc (length h0)) = vs"
    using r5(2) at_frame(2) [OF fr] by simp
  have s: "np_add ?adv vs = Inr ?ret"
    using len map2_add_upt [of vs "length ns" ?S]
    by (simp add: np_add_def np_broadcast_def)
  have l6: "?aa < length h6"
    using fr by (simp add: h5_def)
  have c: "compute_returns_and_advantages g l (self, h0) =
       (Inr (Suc (length h6), Suc (Suc (length h6))),
        h6 @ [FloatSeq ?ret, FloatSeq ?ret, FloatSeq ?adv])"
    unfolding compute_unfold Let_def rd at_old(1) [OF v(2)] at_old(3) [OF v(3)]
    unfolding h5_def [symmetric] lp prod.case sum.case adv vs6 s at_old(6) [OF l6]
    ..
  show ?thesis
    unfolding c by (intro exI conjI, rule refl) (simp_all add: nth_append floats_at_def)
qed

lemma contents_frame:
  assumes "buf_ok (self, h)" and "take (length h) h' = h"
  shows "contents (self, h') = contents (self, h)"
proof -
  from assms(2) obtain ext where e: "h' = h @ ext"
    by (metis append_take_drop_id)
  from assms(1) have v: "states self < length h" "actions self < length h" "rewards self < length h"
      "log_probs self < length h" "values' self < length h" "dones self < length h"
    by (simp_all add: buf_ok_def)
  show ?thesis
    unfolding e by (simp add: contents_def at_old v)
qed

lemma two_adds:
  "buf_ok (add s1 a1 r1 l1 v1 d1 (add s0 a0 r0 l0 v0 d0 (RolloutBuffer_init h)))"
  "contents (add s1 a1 r1 l1 v1 d1 (add s0 a0 r0 l0 v0 d0 (RolloutBuffer_init h)))
     = ([s0, s1], [a0, a1], [r0, r1], [l0, l1], [v0, v1], [d0, d1])"
proof -
  have i: "buf_ok (RolloutBuffer_init h)" "contents (RolloutBuffer_init h) = ([], [], [], [], [], [])"
    by (simp_all add: RolloutBuffer_init_def assign_empty_lists_ok contents_assign_empty_lists)
  have a: "buf_ok (add s0 a0 r0 l0 v0 d0 (RolloutBuffer_init h))"
    "contents (add s0 a0 r0 l0 v0 d0 (RolloutBuffer_init h)) = ([s0], [a0], [r0], [l0], [v0], [d0])"
    using add_ok [OF i(1)] contents_add [OF i] by simp_all
  show "buf_ok (add s1 a1 r1 l1 v1 d1 (add s0 a0 r0 l0 v0 d0 (RolloutBuffer_init h)))"
    by (rule add_ok [OF a(1)])
  show "contents (add s1 a1 r1 l1 v1 d1 (add s0 a0 r0 l0 v0 d0 (RolloutBuffer_init h)))
     = ([s0, s1], [a0, a1], [r0, r1], [l0, l1], [v0, v1], [d0, d1])"
    using contents_add [OF a] by simp
qed
text \<open>
  Claim C1, for rewards that are floats.  On a buffer whose sequences hold \<open>T\<close>
  transitions and whose rewards are not all Python \<open>int\<close>s (so that
  \<open>np.array(self.rewards)\<close> and the array of the advantages hold floats),
  \<open>compute_returns_and_advantages(gamma, gae_lambda)\<close> returns, and the tensors it
  returns hold \<open>T\<close> entries with, for every \<open>t < T\<close>,
  \<open>advantage[t] = delta[t] + gamma * gae_lambda * (1 - done[t]) * advantage[t+1]\<close>, where
  \<open>delta[t] = reward[t] + gamma * next_value[t] * (1 - done[t]) - value[t]\<close>,
  \<open>next_value[t] = values[t+1]\<close> for \<open>t < T-1\<close> and \<open>next_value[T-1] = 0\<close>, the
  accumulator in place of \<open>advantage[T]\<close> is 0, and \<open>return[t] = advantage[t] + value[t]\<close>.
  For one transition with \<open>done\<close> set it returns the advantage \<open>r - v\<close> and the return
  \<open>r\<close>; for two transitions with \<open>done = [0, 1]\<close> it returns
  \<open>adv1 = r1 - v1\<close>, \<open>adv0 = (r0 + g*v1 - v0) + g*l*adv1\<close> and the returns
  \<open>adv_t + v_t\<close>.  (Floats are read as reals.)
\<close>

theorem gae_recurrence:
  assumes "buf_ok sh" and "contents sh = (ss, as, ns, ls, vs, ds)"
    and "same_lengths (ss, as, ns, ls, vs, ds)"
    and "\<not> int_dtype ns"
  shows "\<exists>ret_t adv_t h'.
     compute_returns_and_advantages gamma gae_lambda sh = (Inr (ret_t, adv_t), h') \<and>
     (let adv = floats_at h' adv_t; ret = floats_at h' ret_t; rs = map num_val ns; T = length ns
      in length adv = T \<and> length ret = T \<and>
         (\<forall>t<T. adv ! t =
                   (rs ! t + gamma * (if t + 1 < T then vs ! (t + 1) else 0) * (1 - of_bool (ds ! t))
                      - vs ! t)
                   + gamma * gae_lambda * (1 - of_bool (ds ! t))
                       * (if t + 1 < T then adv ! (t + 1) else 0)
                 \<and> ret ! t = adv ! t + vs ! t) \<and>
         (\<forall>r v. rs = [r] \<and> vs = [v] \<and> ds = [True] \<longrightarrow> adv = [r - v] \<and> ret = [r]) \<and>
         (\<forall>r0 r1 v0 v1. rs = [r0, r1] \<and> vs = [v0, v1] \<and> ds = [False, True] \<longrightarrow>
            adv = [(r0 + gamma * v1 - v0) + gamma * gae_lambda * (r1 - v1), r1 - v1] \<and>
            ret = [(r0 + gamma * v1 - v0) + gamma * gae_lambda * (r1 - v1) + v0, (r1 - v1) + v1]))"
proof -
  obtain self h0 where sh: "sh = (self, h0)" by (cases sh)
  from assms(1) sh have v: "rewards self < length h0" "values' self < length h0" "dones self < length h0"
    by (simp_all add: buf_ok_def)
  from assms(2) sh have rd: "nums_at h0 (rewards self) = ns" "floats_at h0 (values' self) = vs"
      "bools_at h0 (dones self) = ds"
    by (simp_all add: contents_def)
  from assms(3) have len: "length vs = length ns" "length ds = length ns"
    by (simp_all add: same_lengths_def)
  define rs where "rs = map num_val ns"
  have lrs: "length rs = length ns"
    by (simp add: rs_def)
  let ?A = "spec_advantage gamma gae_lambda rs vs ds"
  let ?R = "\<lambda>t. ?A t + vs ! t"
  from compute_spec [OF v rd len, of gamma gae_lambda] assms(4)
  obtain ret_t adv_t h' where
    c: "compute_returns_and_advantages gamma gae_lambda (self, h0) = (Inr (ret_t, adv_t), h')"
    and adv: "floats_at h' adv_t = map ?A [0..<length rs]"
    and ret: "floats_at h' ret_t = map ?R [0..<length rs]"
    unfolding rs_def by (auto simp add: stored_def)
  have z: "?A t = 0" if "length rs \<le> t" for t
    using that by (simp add: spec_advantage.simps [of gamma gae_lambda rs vs ds t])
  have step: "?A t = (rs ! t + gamma * (if t + 1 < length rs then vs ! (t + 1) else 0)
                   * (1 - of_bool (ds ! t)) - vs ! t)
                + gamma * gae_lambda * (1 - of_bool (ds ! t))
                       * (if t + 1 < length rs then ?A (t + 1) else 0)"
    if "t < length rs" for t
    using that len lrs z [of "Suc t"]
    by (simp add: spec_advantage.simps [of gamma gae_lambda rs vs ds t] spec_delta_def
        spec_next_value_def)
  have one: "map ?A [0..<length rs] = [r - v] \<and> map ?R [0..<length rs] = [r]"
    if "rs = [r]" "vs = [v]" "ds = [True]" for r v
    using step [of 0] that by simp
  have two: "map ?A [0..<length rs] = [(r0 + gamma * v1 - v0) + gamma * gae_lambda * (r1 - v1), r1 - v1]
           \<and> map ?R [0..<length rs]
              = [(r0 + gamma * v1 - v0) + gamma * gae_lambda * (r1 - v1) + v0, (r1 - v1) + v1]"
    if "rs = [r0, r1]" "vs = [v0, v1]" "ds = [False, True]" for r0 r1 v0 v1
    using step [of 0] step [of 1] that by (simp add: upt_rec)
  have rec: "\<forall>t<length rs.
      map ?A [0..<length rs] ! t =
         (rs ! t + gamma * (if t + 1 < length rs then vs ! (t + 1) else 0) * (1 - of_bool (ds ! t))
            - vs ! t)
         + gamma * gae_lambda * (1 - of_bool (ds ! t))
            * (if t + 1 < length rs then map ?A [0..<length rs] ! (t + 1) else 0)
      \<and> map ?R [0..<length rs] ! t = map ?A [0..<length rs] ! t + vs ! t"
    using step by simp
  from rec one two have
    "let adv = floats_at h' adv_t; ret = floats_at h' ret_t; T = length rs
      in length adv = T \<and> length ret = T \<and>
         (\<forall>t<T. adv ! t =
                   (rs ! t + gamma * (if t + 1 < T then vs ! (t + 1) else 0) * (1 - of_bool (ds ! t))
                      - vs ! t)
                   + gamma * gae_lambda * (1 - of_bool (ds ! t))
                       * (if t + 1 < T then adv ! (t + 1) else 0)
                 \<and> ret ! t = adv ! t + vs ! t) \<and>
         (\<forall>r v. rs = [r] \<and> vs = [v] \<and> ds = [True] \<longrightarrow> adv = [r - v] \<and> ret = [r]) \<and>
         (\<forall>r0 r1 v0 v1. rs = [r0, r1] \<and> vs = [v0, v1] \<and> ds = [False, True] \<longrightarrow>
            adv = [(r0 + gamma * v1 - v0) + gamma * gae_lambda * (r1 - v1), r1 - v1] \<and>
            ret = [(r0 + gamma * v1 - v0) + gamma * gae_lambda * (r1 - v1) + v0, (r1 - v1) + v1])"
    unfolding Let_def adv ret by (intro conjI) (simp, simp, blast, blast, blast)
  with c show ?thesis
    unfolding sh Let_def rs_def [symmetric] lrs [symmetric] by blast
qed

theorem gae_recurrence_witness:
  "buf_ok (add [0] 1 (PyFloat 2) 0 1 True (add [0] 0 (PyFloat 1) 0 3 False (RolloutBuffer_init [])))
   \<and> contents (add [0] 1 (PyFloat 2) 0 1 True (add [0] 0 (PyFloat 1) 0 3 False (RolloutBuffer_init [])))
       = ([[0], [0]], [0, 1], [PyFloat 1, PyFloat 2], [0, 0], [3, 1], [False, True])
   \<and> same_lengths ([[0], [0]], [0, 1], [PyFloat 1, PyFloat 2], [0, 0], [3, 1], [False, True])
   \<and> \<not> int_dtype [PyFloat 1, PyFloat 2]
   \<and> (\<exists>ret_t adv_t h'.
         compute_returns_and_advantages (1 / 2) (1 / 2)
           (add [0] 1 (PyFloat 2) 0 1 True (add [0] 0 (PyFloat 1) 0 3 False (RolloutBuffer_init [])))
           = (Inr (ret_t, adv_t), h')
         \<and> floats_at h' adv_t = [- 5 / 4, 1] \<and> floats_at h' ret_t = [7 / 4, 2])"
proof -
  let ?sh = "add [0] 1 (PyFloat 2) 0 1 True (add [0] 0 (PyFloat 1) 0 3 False (RolloutBuffer_init []))"
  have ok: "buf_ok ?sh" by (rule two_adds)
  have c: "contents ?sh = ([[0], [0]], [0, 1], [PyFloat 1, PyFloat 2], [0, 0], [3, 1], [False, True])"
    by (rule two_adds)
  have sl: "same_lengths ([[0 :: real], [0]], [0 :: int, 1], [PyFloat 1, PyFloat 2], [0 :: real, 0],
      [3 :: real, 1], [False, True])"
    by (simp add: same_lengths_def)
  have nd: "\<not> int_dtype [PyFloat 1, PyFloat 2]"
    by (simp add: int_dtype_def)
  from gae_recurrence [OF ok c sl nd, of "1 / 2" "1 / 2"] ok c sl nd show ?thesis
    unfolding Let_def by (elim exE conjE) (intro conjI exI, assumption+, simp_all)
qed

text \<open>
  Claim C1 as the specification words it, for every buffer, does not hold.  When every
  reward is a Python \<open>int\<close>, \<open>np.array(self.rewards)\<close> is an array of integers,
  \<open>np.zeros_like(rewards)\<close> is one too, and \<open>advantages[t] = gae\<close> truncates the
  float towards zero.  With the rewards \<open>1, 2\<close>, the values \<open>3.0, 1.0\<close>, the flags
  \<open>False, True\<close> and \<open>gamma = gae_lambda = 0.5\<close> the recurrence gives the advantages
  \<open>-1.25, 1\<close> and the returns \<open>1.75, 2\<close>; the code returns the advantages
  \<open>-1, 1\<close> and the returns \<open>2, 2\<close>.  The same numbers given as floats come out as
  the recurrence says.
\<close>

theorem integer_rewards_truncate_advantages:
  "returned_tensors (compute_returns_and_advantages (1 / 2) (1 / 2)
       (add [0] 1 (PyInt 2) 0 1 True (add [0] 0 (PyInt 1) 0 3 False (RolloutBuffer_init []))))
     = Inr ([2, 2], [- 1, 1])
   \<and> returned_tensors (compute_returns_and_advantages (1 / 2) (1 / 2)
       (add [0] 1 (PyFloat 2) 0 1 True (add [0] 0 (PyFloat 1) 0 3 False (RolloutBuffer_init []))))
     = Inr ([7 / 4, 2], [- 5 / 4, 1])
   \<and> (1 + 1 / 2 * 1 - 3) + 1 / 2 * (1 / 2) * (2 - 1) = (- 5 / 4 :: real)"
  by code_simp

text \<open>
  Claim C10.  \<open>get\<close> and \<open>compute_returns_and_advantages\<close> change no object that
  existed before the call, whether they return or raise: the store after the call is the
  store before it followed by the new arrays and tensors, so the six sequences of the
  buffer hold what they held.  Two calls of \<open>compute_returns_and_advantages\<close> in a row
  with the same \<open>gamma\<close> and \<open>gae_lambda\<close> return tensors with the same entries.
\<close>

theorem buffer_reads_keep_store:
  "take (length (snd sh)) (snd (get sh)) = snd sh
   \<and> take (length (snd sh)) (snd (compute_returns_and_advantages gamma gae_lambda sh)) = snd sh
   \<and> (buf_ok sh \<longrightarrow>
        contents (fst sh, snd (get sh)) = contents sh \<and>
        contents (fst sh, snd (compute_returns_and_advantages gamma gae_lambda sh)) = contents sh)
   \<and> (buf_ok sh \<and> same_lengths (contents sh) \<longrightarrow>
        (\<exists>ret1 adv1 h1 ret2 adv2 h2.
           compute_returns_and_advantages gamma gae_lambda sh = (Inr (ret1, adv1), h1) \<and>
           compute_returns_and_advantages gamma gae_lambda (fst sh, h1) = (Inr (ret2, adv2), h2) \<and>
           floats_at h2 ret2 = floats_at h1 ret1 \<and> floats_at h2 adv2 = floats_at h1 adv1))"
proof (intro conjI impI)
  show g: "take (length (snd sh)) (snd (get sh)) = snd sh"
    by (rule get_frame)
  show c: "take (length (snd sh)) (snd (compute_returns_and_advantages gamma gae_lambda sh)) = snd sh"
    by (rule compute_frame)
  {
    assume ok: "buf_ok sh"
    then have ok': "buf_ok (fst sh, snd sh)" by simp
    show "contents (fst sh, snd (get sh)) = contents sh"
      using contents_frame [OF ok' g] by simp
    show "contents (fst sh, snd (compute_returns_and_advantages gamma gae_lambda sh)) = contents sh"
      using contents_frame [OF ok' c] by simp
  }
  assume a: "buf_ok sh \<and> same_lengths (contents sh)"
  obtain self h0 where sh: "sh = (self, h0)" by (cases sh)
  obtain ss as ns ls vs ds where ct: "contents (self, h0) = (ss, as, ns, ls, vs, ds)"
    by (cases "contents (self, h0)") auto
  from a sh have ok: "buf_ok (self, h0)" and sl: "same_lengths (contents (self, h0))"
    by simp_all
  from ok have v: "rewards self < length h0" "values' self < length h0" "dones self < length h0"
    by (simp_all add: buf_ok_def)
  from ct have rd: "nums_at h0 (rewards self) = ns" "floats_at h0 (values' self) = vs"
      "bools_at h0 (dones self) = ds"
    by (simp_all add: contents_def)
  from sl ct have len: "length vs = length ns" "length ds = length ns"
    by (simp_all add: same_lengths_def)
  let ?S = "\<lambda>t. stored (int_dtype ns) (spec_advantage gamma gae_lambda (map num_val ns) vs ds t)"
  from compute_spec [OF v rd len, of gamma gae_lambda]
  obtain ret1 adv1 h1 where
    c1: "compute_returns_and_advantages gamma gae_lambda (self, h0) = (Inr (ret1, adv1), h1)"
    and r1: "floats_at h1 adv1 = map ?S [0..<length ns]"
      "floats_at h1 ret1 = map (\<lambda>t. ?S t + vs ! t) [0..<length ns]"
    by blast
  have t: "take (length h0) h1 = h0"
    using compute_frame [of "(self, h0)" gamma gae_lambda] c1 by simp
  have l: "length h0 \<le> length h1"
    using arg_cong [OF t, of length] by simp
  have ct1: "contents (self, h1) = (ss, as, ns, ls, vs, ds)"
    using contents_frame [OF ok t] ct by simp
  from ct1 have rd1: "nums_at h1 (rewards self) = ns" "floats_at h1 (values' self) = vs"
      "bools_at h1 (dones self) = ds"
    by (simp_all add: contents_def)
  from v l have v1: "rewards self < length h1" "values' self < length h1" "dones self < length h1"
    by simp_all
  from compute_spec [OF v1 rd1 len, of gamma gae_lambda]
  obtain ret2 adv2 h2 where
    c2: "compute_returns_and_advantages gamma gae_lambda (self, h1) = (Inr (ret2, adv2), h2)"
    and r2: "floats_at h2 adv2 = map ?S [0..<length ns]"
      "floats_at h2 ret2 = map (\<lambda>t. ?S t + vs ! t) [0..<length ns]"
    by blast
  from c1 c2 r1 r2 show "\<exists>ret1 adv1 h1 ret2 adv2 h2.
           compute_returns_and_advantages gamma gae_lambda sh = (Inr (ret1, adv1), h1) \<and>
           compute_returns_and_advantages gamma gae_lambda (fst sh, h1) = (Inr (ret2, adv2), h2) \<and>
           floats_at h2 ret2 = floats_at h1 ret1 \<and> floats_at h2 adv2 = floats_at h1 adv1"
    unfolding sh fst_conv by (intro exI conjI) (assumption, assumption, simp_all)
qed

theorem buffer_reads_keep_store_witness:
  "buf_ok (add [0] 1 (PyInt 2) 0 1 True (add [0] 0 (PyFloat 1) 0 3 False (RolloutBuffer_init [])))
   \<and> same_lengths (contents (add [0] 1 (PyInt 2) 0 1 True (add [0] 0 (PyFloat 1) 0 3 False (RolloutBuffer_init []))))
   \<and> contents (fst (add [0] 1 (PyInt 2) 0 1 True (add [0] 0 (PyFloat 1) 0 3 False (RolloutBuffer_init []))),
         snd (get (add [0] 1 (PyInt 2) 0 1 True (add [0] 0 (PyFloat 1) 0 3 False (RolloutBuffer_init [])))))
       = ([[0], [0]], [0, 1], [PyFloat 1, PyInt 2], [0, 0], [3, 1], [False, True])
   \<and> contents (fst (add [0] 1 (PyInt 2) 0 1 True (add [0] 0 (PyFloat 1) 0 3 False (RolloutBuffer_init []))),
         snd (compute_returns_and_advantages (1 / 2) (1 / 2)
                (add [0] 1 (PyInt 2) 0 1 True (add [0] 0 (PyFloat 1) 0 3 False (RolloutBuffer_init [])))))
       = ([[0], [0]], [0, 1], [PyFloat 1, PyInt 2], [0, 0], [3, 1], [False, True])
   \<and> (\<exists>ret1 adv1 h1 ret2 adv2 h2.
         compute_returns_and_advantages (1 / 2) (1 / 2)
           (add [0] 1 (PyInt 2) 0 1 True (add [0] 0 (PyFloat 1) 0 3 False (RolloutBuffer_init [])))
           = (Inr (ret1, adv1), h1) \<and>
         compute_returns_and_advantages (1 / 2) (1 / 2)
           (fst (add [0] 1 (PyInt 2) 0 1 True (add [0] 0 (PyFloat 1) 0 3 False (RolloutBuffer_init []))), h1)
           = (Inr (ret2, adv2), h2) \<and>
         floats_at h2 ret2 = floats_at h1 ret1 \<and> floats_at h2 adv2 = floats_at h1 adv1)"
proof -
  let ?sh = "add [0] 1 (PyInt 2) 0 1 True (add [0] 0 (PyFloat 1) 0 3 False (RolloutBuffer_init []))"
  have ok: "buf_ok ?sh" by (rule two_adds)
  have c: "contents ?sh = ([[0], [0]], [0, 1], [PyFloat 1, PyInt 2], [0, 0], [3, 1], [False, True])"
    by (rule two_adds)
  have sl: "same_lengths (contents ?sh)"
    unfolding c by (simp add: same_lengths_def)
  from buffer_reads_keep_store [of ?sh "1 / 2" "1 / 2"] ok sl c show ?thesis
    by simp
qed

section \<open>Properties of the environment\<close>

subsection \<open>What every reachable environment satisfies\<close>

lemma sum_list_update_real:
  "k < length xs \<Longrightarrow> sum_list (xs[k := v]) = sum_list xs - xs ! k + (v :: real)"
  by (induction xs arbitrary: k) (auto split: nat.splits)

lemma get_observation_ok:
  assumes "config_ok s" "nodes_ok s" "clock_ok s"
  shows "get_observation s =
     Inr (map Fin ((replicate 5 0)[nat (current_event_idx s) := 1]) @ map Fin (node_status s)
          @ map2 float_div (node_occupancy s) (node_capacity s)
          @ [Fin (real_of_int (num_agents s) / real_of_int (max_agents s))])"
  using assms
  by (simp add: get_observation_def config_ok_def nodes_ok_def clock_ok_def np_index_def
      np_true_divide_def np_broadcast_def)

lemma reset_inv:
  assumes "config_ok s"
  shows "env_inv (snd (reset s))" "\<exists>obs. fst (reset s) = Inr (obs, [])"
    "steps (snd (reset s)) = 0"
proof -
  let ?s2 = "s\<lparr>node_status := replicate (nat (num_nodes s)) 1,
                      node_occupancy := replicate (nat (num_nodes s)) 0,
                      node_capacity := replicate (nat (num_nodes s)) (default_node_capacity s),
                      num_agents := 0,
                      current_event := ''no_event'', current_event_idx := 4, steps := 0, max_steps := 100\<rparr>"
  have c: "config_ok ?s2" using assms by (simp add: config_ok_def)
  have n: "nodes_ok ?s2" by (simp add: nodes_ok_def sum_list_replicate)
  have k: "clock_ok ?s2" using assms by (simp add: clock_ok_def config_ok_def)
  have r: "reset s = (Inr (the_obs, []), ?s2)" if "get_observation ?s2 = Inr the_obs" for the_obs
    using assms that by (simp add: reset_def config_ok_def Let_def)
  from get_observation_ok [OF c n k] r have "\<exists>obs. reset s = (Inr (obs, []), ?s2)"
    by blast
  then obtain obs where e: "reset s = (Inr (obs, []), ?s2)" by blast
  show "env_inv (snd (reset s))" unfolding e using c n k by (simp add: env_inv_def)
  show "\<exists>obs. fst (reset s) = Inr (obs, [])" unfolding e by simp
  show "steps (snd (reset s)) = 0" unfolding e by simp
qed

lemma init_result:
  "ServiceDeploymentEnv_init n k m c ps =
     (if n < 0 then Inl AssertionError
      else if m = 0 then Inl ZeroDivisionError
      else Inr \<lparr>num_nodes = n, num_services = k, max_agents = m, default_node_capacity = c,
                event_probabilities =
                  (case ps of None \<Rightarrow> [3 / 10, 2 / 10, 1 / 10, 1 / 10, 3 / 10]
                   | Some qs \<Rightarrow> if qs = [] then [3 / 10, 2 / 10, 1 / 10, 1 / 10, 3 / 10] else qs),
                EVENT_TYPES = [''agent_arrival'', ''agent_departure'', ''node_failure'',
                               ''node_recovery'', ''no_event''],
                num_event_types = 5, action_space = n + 1, observation_space = 5 + n + n + 1,
                node_status = replicate (nat n) 1, node_occupancy = replicate (nat n) 0,
                node_capacity = replicate (nat n) c, num_agents = 0,
                current_event = ''no_event'', current_event_idx = 4, steps = 0,
                max_steps = 100\<rparr>)"
  by (simp add: ServiceDeploymentEnv_init_def reset_def get_observation_def Let_def
      np_index_def np_true_divide_def np_broadcast_def)

lemma init_inv:
  assumes "ServiceDeploymentEnv_init n k m c ps = Inr s"
  shows "env_inv s"
  using assms unfolding init_result
  by (auto simp add: env_inv_def config_ok_def nodes_ok_def clock_ok_def sum_list_replicate
      split: if_splits)


lemma choice_in_set: "xs \<noteq> [] \<Longrightarrow> choice d xs \<in> set xs"
  by (simp add: choice_def)

lemma np_where_iff: "i \<in> set (np_where c xs) \<longleftrightarrow> i < length xs \<and> c (xs ! i)"
  by (auto simp add: np_where_def)

lemma Nats_pred: "(x :: real) \<in> \<nat> \<Longrightarrow> 0 < x \<Longrightarrow> x - 1 \<in> \<nat>"
proof -
  assume "x \<in> \<nat>" and p: "0 < x"
  then obtain n where n: "x = of_nat n" by (auto elim: Nats_cases)
  with p have "0 < n" by simp
  then have "x - 1 = of_nat (n - 1)" using n by (simp add: of_nat_diff)
  then show ?thesis by simp
qed

lemma sum_list_Nats_nonneg:
  "\<forall>i < length xs. xs ! i \<in> \<nat> \<Longrightarrow> 0 \<le> sum_list (xs :: real list) \<and> sum_list xs \<in> \<nat>"
proof (induction xs)
  case Nil
  show ?case by simp
next
  case (Cons x xs)
  from Cons.prems have x: "x \<in> \<nat>" by auto
  from Cons.prems have "\<forall>i < length xs. xs ! i \<in> \<nat>" by auto
  with Cons.IH have "0 \<le> sum_list xs \<and> sum_list xs \<in> \<nat>" by simp
  with x show ?case by (auto intro: Nats_add simp add: Nats_altdef2)
qed

lemma py_int_of_int: "py_int (real_of_int z) = z"
  by (simp add: py_int_def)

lemma arrival_result:
  assumes "config_ok s" and "nodes_ok s"
  shows "on_agent_arrival a s =
     (if num_nodes s \<le> a then (Inr (- (1 / 2), [(''deployment'', Str ''rejected'')]), s)
      else if a < - num_nodes s then (Inl IndexError, s)
      else
        (let k = (if 0 \<le> a then nat a else nat (num_nodes s + a))
         in if node_status s ! k = 1 \<and> node_occupancy s ! k < default_node_capacity s
            then (Inr (1, [(''deployment'', Str ''success'')]),
                  s\<lparr>node_occupancy := (node_occupancy s)[k := f32_add_one (node_occupancy s ! k)],
                    num_agents := num_agents s + 1\<rparr>)
            else (Inr (- 1, [(''deployment'', Str ''failed'')]), s)))"
  using assms
  by (auto simp add: on_agent_arrival_def config_ok_def nodes_ok_def np_getitem_def np_index_def Let_def)


lemma counts_exact_cong:
  "num_nodes t = num_nodes s \<Longrightarrow> default_node_capacity t = default_node_capacity s \<Longrightarrow>
   counts_exact t = counts_exact s"
  by (simp add: counts_exact_def)

lemma nodes_ok_occ_update:
  assumes n: "nodes_ok s" and k: "k < nat (num_nodes s)"
    and v: "v \<in> \<nat>" "v \<le> 2 ^ 24" "v = 0 \<or> v < default_node_capacity s + 1"
      "node_status s ! k = 0 \<longrightarrow> v = 0"
    and a: "counts_exact s \<longrightarrow>
              real_of_int z = real_of_int (num_agents s) - node_occupancy s ! k + v"
  shows "nodes_ok (s\<lparr>node_occupancy := (node_occupancy s)[k := v], num_agents := z\<rparr>)"
proof -
  let ?t = "s\<lparr>node_occupancy := (node_occupancy s)[k := v], num_agents := z\<rparr>"
  from n k have l: "k < length (node_occupancy s)" by (simp add: nodes_ok_def)
  have ce: "counts_exact ?t = counts_exact s"
    by (rule counts_exact_cong) simp_all
  have "sum_list ((node_occupancy s)[k := v]) = sum_list (node_occupancy s) - node_occupancy s ! k + v"
    by (rule sum_list_update_real [OF l])
  with n a have su: "counts_exact s \<longrightarrow> real_of_int z = sum_list ((node_occupancy s)[k := v])"
    by (simp add: nodes_ok_def)
  have each: "(node_status s ! i = 0 \<or> node_status s ! i = 1)
            \<and> (node_occupancy s)[k := v] ! i \<in> \<nat>
            \<and> (node_occupancy s)[k := v] ! i \<le> 2 ^ 24
            \<and> ((node_occupancy s)[k := v] ! i = 0
                \<or> (node_occupancy s)[k := v] ! i < default_node_capacity s + 1)
            \<and> (node_status s ! i = 0 \<longrightarrow> (node_occupancy s)[k := v] ! i = 0)"
    if i: "i < nat (num_nodes s)" for i
  proof (cases "i = k")
    case True
    with n i l v show ?thesis by (simp add: nodes_ok_def)
  next
    case False
    with n i show ?thesis by (simp add: nodes_ok_def)
  qed
  from n have "length (node_status s) = nat (num_nodes s)"
    "length (node_occupancy s) = nat (num_nodes s)"
    "node_capacity s = replicate (nat (num_nodes s)) (default_node_capacity s)"
    by (simp_all add: nodes_ok_def)
  with each su show ?thesis
    unfolding nodes_ok_def ce by simp
qed

lemma Nats_succ_le:
  assumes "(x :: real) \<in> \<nat>" and "x < 2 ^ 24"
  shows "x + 1 \<le> 2 ^ 24"
proof -
  from assms(1) obtain m where m: "x = of_nat m" by (auto elim: Nats_cases)
  from assms(2) have "m < 2 ^ 24" unfolding m
    by (simp only: of_nat_less_numeral_power_cancel_iff)
  then have "Suc m \<le> 2 ^ 24" by simp
  then have "real (Suc m) \<le> 2 ^ 24"
    by (simp only: of_nat_le_numeral_power_cancel_iff)
  then show ?thesis unfolding m by simp
qed

lemma f32_add_one_ok:
  assumes "x \<in> \<nat>" and "x \<le> 2 ^ 24"
  shows "f32_add_one x \<in> \<nat>" "f32_add_one x \<le> 2 ^ 24" "f32_add_one x \<le> x + 1"
  using assms Nats_succ_le [of x]
  by (auto simp add: f32_add_one_def intro: Nats_add)

lemma exact_occupancy_below:
  assumes c: "counts_exact s" and k: "k < nat (num_nodes s)"
    and x: "0 \<le> x" "x < default_node_capacity s"
  shows "x < 2 ^ 24"
proof -
  from k have "1 \<le> real_of_int (num_nodes s)" by simp
  moreover from x have "0 \<le> default_node_capacity s" by simp
  ultimately have "1 * default_node_capacity s \<le> real_of_int (num_nodes s) * default_node_capacity s"
    by (rule mult_right_mono)
  moreover from c have "real_of_int (num_nodes s) * default_node_capacity s \<le> 2 ^ 24"
    by (simp add: counts_exact_def)
  ultimately have "default_node_capacity s \<le> 2 ^ 24" by linarith
  with x show ?thesis by linarith
qed

lemma arrival_inv:
  assumes "env_inv s"
  shows "env_inv (snd (on_agent_arrival a s))"
proof -
  from assms have c: "config_ok s" and n: "nodes_ok s" and t: "clock_ok s"
    by (simp_all add: env_inv_def)
  show ?thesis
  proof (cases "num_nodes s \<le> a \<or> a < - num_nodes s")
    case True
    with assms show ?thesis by (auto simp add: arrival_result [OF c n])
  next
    case False
    define k where "k = (if 0 \<le> a then nat a else nat (num_nodes s + a))"
    from False have kl: "k < nat (num_nodes s)" by (auto simp add: k_def)
    show ?thesis
    proof (cases "node_status s ! k = 1 \<and> node_occupancy s ! k < default_node_capacity s")
      case True
      let ?s = "s\<lparr>node_occupancy := (node_occupancy s)[k := f32_add_one (node_occupancy s ! k)],
                    num_agents := num_agents s + 1\<rparr>"
      from n kl have o: "node_occupancy s ! k \<in> \<nat>" "node_occupancy s ! k \<le> 2 ^ 24"
        by (simp_all add: nodes_ok_def)
      from o(1) have o0: "0 \<le> node_occupancy s ! k" by (auto elim: Nats_cases)
      note f = f32_add_one_ok [OF o]
      have "nodes_ok ?s"
      proof (rule nodes_ok_occ_update [OF n kl f(1,2)])
        show "f32_add_one (node_occupancy s ! k) = 0
              \<or> f32_add_one (node_occupancy s ! k) < default_node_capacity s + 1"
          using f(3) True by simp
        show "node_status s ! k = 0 \<longrightarrow> f32_add_one (node_occupancy s ! k) = 0"
          using True by simp
        show "counts_exact s \<longrightarrow>
                real_of_int (num_agents s + 1)
                  = real_of_int (num_agents s) - node_occupancy s ! k + f32_add_one (node_occupancy s ! k)"
        proof
          assume "counts_exact s"
          from exact_occupancy_below [OF this kl o0] True
          show "real_of_int (num_agents s + 1)
                  = real_of_int (num_agents s) - node_occupancy s ! k + f32_add_one (node_occupancy s ! k)"
            by (simp add: f32_add_one_def)
        qed
      qed
      moreover have "config_ok ?s" "clock_ok ?s"
        using c t by (simp_all add: config_ok_def clock_ok_def)
      moreover have "snd (on_agent_arrival a s) = ?s"
        using False True by (simp add: arrival_result [OF c n] k_def [symmetric] Let_def)
      ultimately show ?thesis by (simp add: env_inv_def)
    next
      case b: False
      have "snd (on_agent_arrival a s) = s"
        using False b by (auto simp add: arrival_result [OF c n] k_def [symmetric] Let_def)
      with assms show ?thesis by simp
    qed
  qed
qed

lemma departure_inv:
  assumes "env_inv s"
  shows "env_inv (snd (on_agent_departure d s))"
proof -
  from assms have c: "config_ok s" and n: "nodes_ok s" and t: "clock_ok s"
    by (simp_all add: env_inv_def)
  let ?occ = "np_where (\<lambda>x. 0 < x) (node_occupancy s)"
  show ?thesis
  proof (cases "0 < num_agents s \<and> ?occ \<noteq> []")
    case True
    define k where "k = choice d ?occ"
    from True have "k \<in> set ?occ" unfolding k_def by (intro choice_in_set) simp
    then have kl: "k < length (node_occupancy s)" and p: "0 < node_occupancy s ! k"
      by (simp_all add: np_where_iff)
    from kl n have kn: "k < nat (num_nodes s)" by (simp add: nodes_ok_def)
    let ?s = "s\<lparr>node_occupancy := (node_occupancy s)[k := node_occupancy s ! k - 1],
                    num_agents := num_agents s - 1\<rparr>"
    from n kn have nat: "node_occupancy s ! k \<in> \<nat>"
      and top: "node_occupancy s ! k \<le> 2 ^ 24"
      and b: "node_occupancy s ! k = 0 \<or> node_occupancy s ! k < default_node_capacity s + 1"
      and st: "node_status s ! k = 0 \<longrightarrow> node_occupancy s ! k = 0"
      by (simp_all add: nodes_ok_def)
    have "nodes_ok ?s"
    proof (rule nodes_ok_occ_update [OF n kn])
      show "node_occupancy s ! k - 1 \<in> \<nat>" by (rule Nats_pred [OF nat p])
      show "node_occupancy s ! k - 1 \<le> 2 ^ 24" using top by simp
      show "node_occupancy s ! k - 1 = 0 \<or> node_occupancy s ! k - 1 < default_node_capacity s + 1"
        using b p by auto
      show "node_status s ! k = 0 \<longrightarrow> node_occupancy s ! k - 1 = 0"
        using st p by auto
    qed simp
    moreover have "config_ok ?s" "clock_ok ?s"
      using c t by (simp_all add: config_ok_def clock_ok_def)
    moreover have "snd (on_agent_departure d s) = ?s"
      using True by (simp add: on_agent_departure_def Let_def k_def)
    ultimately show ?thesis by (simp add: env_inv_def)
  next
    case False
    then have "snd (on_agent_departure d s) = s"
      by (auto simp add: on_agent_departure_def Let_def)
    with assms show ?thesis by simp
  qed
qed


lemma nodes_ok_status_update:
  assumes n: "nodes_ok s" and k: "k < nat (num_nodes s)"
    and v: "v = 0 \<or> v = 1" "v = 0 \<longrightarrow> node_occupancy s ! k = 0"
  shows "nodes_ok (s\<lparr>node_status := (node_status s)[k := v]\<rparr>)"
proof -
  from n k have l: "k < length (node_status s)" by (simp add: nodes_ok_def)
  have ce: "counts_exact (s\<lparr>node_status := (node_status s)[k := v]\<rparr>) = counts_exact s"
    by (rule counts_exact_cong) simp_all
  have each: "((node_status s)[k := v] ! i = 0 \<or> (node_status s)[k := v] ! i = 1)
            \<and> node_occupancy s ! i \<in> \<nat>
            \<and> node_occupancy s ! i \<le> 2 ^ 24
            \<and> (node_occupancy s ! i = 0 \<or> node_occupancy s ! i < default_node_capacity s + 1)
            \<and> ((node_status s)[k := v] ! i = 0 \<longrightarrow> node_occupancy s ! i = 0)"
    if i: "i < nat (num_nodes s)" for i
  proof (cases "i = k")
    case True
    with n i l v show ?thesis by (simp add: nodes_ok_def)
  next
    case False
    with n i show ?thesis by (simp add: nodes_ok_def)
  qed
  from n have "length (node_status s) = nat (num_nodes s)"
    "length (node_occupancy s) = nat (num_nodes s)"
    "node_capacity s = replicate (nat (num_nodes s)) (default_node_capacity s)"
    "counts_exact s \<longrightarrow> real_of_int (num_agents s) = sum_list (node_occupancy s)"
    by (simp_all add: nodes_ok_def)
  with each show ?thesis
    unfolding nodes_ok_def ce by simp
qed

lemma failure_result:
  assumes n: "nodes_ok s"
    and a: "np_where (\<lambda>x. x = 1) (node_status s) \<noteq> []"
    and f: "f = choice d (np_where (\<lambda>x. x = 1) (node_status s))"
  shows "on_node_failure d s =
           (Inr (- 2 * node_occupancy s ! f, [(''node_failure'', Idx f)]),
            s\<lparr>node_status := (node_status s)[f := 0],
              node_occupancy := (node_occupancy s)[f := 0],
              num_agents := max 0 (num_agents s - \<lfloor>node_occupancy s ! f\<rfloor>)\<rparr>)"
    and "f < nat (num_nodes s)" and "node_status s ! f = 1"
    and "nodes_ok (s\<lparr>node_status := (node_status s)[f := 0],
              node_occupancy := (node_occupancy s)[f := 0],
              num_agents := max 0 (num_agents s - \<lfloor>node_occupancy s ! f\<rfloor>)\<rparr>)"
proof -
  from a have "f \<in> set (np_where (\<lambda>x. x = 1) (node_status s))"
    unfolding f by (rule choice_in_set)
  then have fl: "f < length (node_status s)" and st: "node_status s ! f = 1"
    by (simp_all add: np_where_iff)
  from fl n show fn: "f < nat (num_nodes s)" by (simp add: nodes_ok_def)
  show "node_status s ! f = 1" by (rule st)
  from n fn have fo: "f < length (node_occupancy s)" and nat: "node_occupancy s ! f \<in> \<nat>"
    by (simp_all add: nodes_ok_def)
  from nat obtain m where m: "node_occupancy s ! f = of_nat m" by (auto elim: Nats_cases)
  let ?z = "max 0 (num_agents s - int m)"
  have zr: "counts_exact s \<longrightarrow>
              real_of_int ?z = real_of_int (num_agents s) - node_occupancy s ! f + 0"
  proof
    assume ce: "counts_exact s"
    have "sum_list ((node_occupancy s)[f := 0]) = sum_list (node_occupancy s) - node_occupancy s ! f + 0"
      by (rule sum_list_update_real [OF fo])
    moreover have "0 \<le> sum_list ((node_occupancy s)[f := 0])"
    proof -
      have "(node_occupancy s)[f := 0] ! i \<in> \<nat>" if "i < length (node_occupancy s)" for i
      proof (cases "i = f")
        case True
        with that show ?thesis by simp
      next
        case False
        with that n show ?thesis by (simp add: nodes_ok_def)
      qed
      then have "\<forall>i < length ((node_occupancy s)[f := 0]). (node_occupancy s)[f := 0] ! i \<in> \<nat>"
        by simp
      then show ?thesis using sum_list_Nats_nonneg by blast
    qed
    moreover from n ce have "real_of_int (num_agents s) = sum_list (node_occupancy s)"
      by (simp add: nodes_ok_def)
    ultimately have "0 \<le> real_of_int (num_agents s) - real m"
      by (simp add: m)
    then have "0 \<le> num_agents s - int m"
      by (metis of_int_0_le_iff of_int_diff of_int_of_nat_eq)
    then show "real_of_int ?z = real_of_int (num_agents s) - node_occupancy s ! f + 0"
      by (simp add: m)
  qed
  have n1: "nodes_ok (s\<lparr>node_occupancy := (node_occupancy s)[f := 0], num_agents := ?z\<rparr>)"
    by (rule nodes_ok_occ_update [OF n fn _ _ _ _ zr]) simp_all
  have pz: "py_int (real_of_int (num_agents s) - real m) = num_agents s - int m"
    using py_int_of_int [of "num_agents s - int m"] by simp
  have fm: "\<lfloor>node_occupancy s ! f\<rfloor> = int m" by (simp add: m)
  show "on_node_failure d s =
           (Inr (- 2 * node_occupancy s ! f, [(''node_failure'', Idx f)]),
            s\<lparr>node_status := (node_status s)[f := 0],
              node_occupancy := (node_occupancy s)[f := 0],
              num_agents := max 0 (num_agents s - \<lfloor>node_occupancy s ! f\<rfloor>)\<rparr>)"
    using a fo unfolding fm
    by (simp add: on_node_failure_def Let_def f [symmetric] m pz)
  have "nodes_ok ((s\<lparr>node_occupancy := (node_occupancy s)[f := 0], num_agents := ?z\<rparr>)
           \<lparr>node_status := (node_status (s\<lparr>node_occupancy := (node_occupancy s)[f := 0],
                num_agents := ?z\<rparr>))[f := 0]\<rparr>)"
    using fn fo by (intro nodes_ok_status_update [OF n1]) simp_all
  then show "nodes_ok (s\<lparr>node_status := (node_status s)[f := 0],
              node_occupancy := (node_occupancy s)[f := 0],
              num_agents := max 0 (num_agents s - \<lfloor>node_occupancy s ! f\<rfloor>)\<rparr>)"
    unfolding fm by (simp add: nodes_ok_def counts_exact_def)
qed

lemma failure_inv:
  assumes "env_inv s"
  shows "env_inv (snd (on_node_failure d s))"
proof -
  from assms have c: "config_ok s" and n: "nodes_ok s" and t: "clock_ok s"
    by (simp_all add: env_inv_def)
  show ?thesis
  proof (cases "np_where (\<lambda>x. x = 1) (node_status s) = []")
    case True
    then have "snd (on_node_failure d s) = s"
      by (simp add: on_node_failure_def)
    with assms show ?thesis by simp
  next
    case False
    note r = failure_result [OF n False refl, of d]
    from c t have "config_ok (snd (on_node_failure d s))" "clock_ok (snd (on_node_failure d s))"
      unfolding r(1) by (simp_all add: config_ok_def clock_ok_def)
    moreover from r(4) have "nodes_ok (snd (on_node_failure d s))"
      unfolding r(1) by simp
    ultimately show ?thesis by (simp add: env_inv_def)
  qed
qed

lemma recovery_inv:
  assumes "env_inv s"
  shows "env_inv (snd (on_node_recovery d s))"
proof -
  from assms have c: "config_ok s" and n: "nodes_ok s" and t: "clock_ok s"
    by (simp_all add: env_inv_def)
  let ?failed = "np_where (\<lambda>x. x = 0) (node_status s)"
  show ?thesis
  proof (cases "?failed = []")
    case True
    then have "snd (on_node_recovery d s) = s"
      by (simp add: on_node_recovery_def)
    with assms show ?thesis by simp
  next
    case False
    define k where "k = choice d ?failed"
    from False have "k \<in> set ?failed" unfolding k_def by (rule choice_in_set)
    then have "k < length (node_status s)" by (simp add: np_where_iff)
    with n have kn: "k < nat (num_nodes s)" by (simp add: nodes_ok_def)
    let ?s = "s\<lparr>node_status := (node_status s)[k := 1]\<rparr>"
    have "nodes_ok ?s" by (rule nodes_ok_status_update [OF n kn]) simp_all
    moreover have "config_ok ?s" "clock_ok ?s"
      using c t by (simp_all add: config_ok_def clock_ok_def)
    moreover have "snd (on_node_recovery d s) = ?s"
      using False by (simp add: on_node_recovery_def Let_def k_def)
    ultimately show ?thesis by (simp add: env_inv_def)
  qed
qed


lemma step_effect:
  "step d_node d_event action self =
     (case event_effect d_node action self of
        (Inl e, s1) \<Rightarrow> (Inl e, s1)
      | (Inr (reward, info), s1) \<Rightarrow>
          (case generate_next_event d_event (s1\<lparr>steps := steps s1 + 1\<rparr>) of
             (Inl e, s2) \<Rightarrow> (Inl e, s2)
           | (Inr u, s2) \<Rightarrow>
               (case get_observation s2 of
                     Inl e \<Rightarrow> (Inl e, s2)
                   | Inr obs \<Rightarrow> (Inr (obs, reward, max_steps s2 \<le> steps s2, False, info), s2))))"
  unfolding step_def event_effect_def Let_def ..

lemma effect_inv:
  assumes "env_inv s"
  shows "env_inv (snd (event_effect d a s))"
  using assms
  by (simp add: event_effect_def arrival_inv departure_inv failure_inv recovery_inv)

lemma effect_frame:
  "steps (snd (event_effect d a s)) = steps s"
  "max_steps (snd (event_effect d a s)) = max_steps s"
  "event_probabilities (snd (event_effect d a s)) = event_probabilities s"
  "EVENT_TYPES (snd (event_effect d a s)) = EVENT_TYPES s"
  "node_capacity (snd (event_effect d a s)) = node_capacity s"
  by (simp_all add: event_effect_def on_agent_arrival_def on_agent_departure_def
      on_node_failure_def on_node_recovery_def Let_def split: sum.splits)

lemma sum_list_zero: "\<forall>x \<in> set xs. x = (0 :: real) \<Longrightarrow> sum_list xs = 0"
  by (induction xs) simp_all

lemma valid_p_support:
  assumes "valid_p n ps"
  shows "filter (\<lambda>i. 0 < ps ! i) [0..<n] \<noteq> []"
proof
  assume e: "filter (\<lambda>i. 0 < ps ! i) [0..<n] = []"
  from assms have l: "length ps = n" and nn: "\<forall>p \<in> set ps. 0 \<le> p"
    and su: "\<bar>sum_list ps - 1\<bar> \<le> 1 / 2 ^ 26"
    by (simp_all add: valid_p_def list_all_iff)
  from e have "\<forall>i < n. \<not> 0 < ps ! i"
    by (simp add: filter_empty_conv)
  with l nn have "\<forall>x \<in> set ps. x = 0"
    by (metis in_set_conv_nth antisym_conv not_le)
  then have "sum_list ps = 0" by (rule sum_list_zero)
  with su show False by simp
qed

lemma generate_result:
  "generate_next_event d s =
     (if valid_p (length (EVENT_TYPES s)) (event_probabilities s)
      then (Inr (),
            s\<lparr>current_event_idx :=
                 int (choice d (filter (\<lambda>i. 0 < event_probabilities s ! i) [0..<length (EVENT_TYPES s)])),
              current_event := EVENT_TYPES s !
                 choice d (filter (\<lambda>i. 0 < event_probabilities s ! i) [0..<length (EVENT_TYPES s)])\<rparr>)
      else (Inl ValueError, s))"
  by (simp add: generate_next_event_def choice_p_def)

lemma drawn_event_range:
  assumes "valid_p n ps"
  shows "choice d (filter (\<lambda>i. 0 < ps ! i) [0..<n]) < n"
  using choice_in_set [OF valid_p_support [OF assms], of d] by simp

lemma generate_inv:
  assumes "env_inv s"
  shows "env_inv (snd (generate_next_event d s))"
proof (cases "valid_p (length (EVENT_TYPES s)) (event_probabilities s)")
  case True
  from assms have l: "length (EVENT_TYPES s) = 5" by (simp add: env_inv_def config_ok_def)
  from drawn_event_range [OF True, of d] l
  have "choice d (filter (\<lambda>i. 0 < event_probabilities s ! i) [0..<length (EVENT_TYPES s)]) < 5"
    by simp
  with assms True show ?thesis
    by (simp add: generate_result env_inv_def config_ok_def nodes_ok_def clock_ok_def
        counts_exact_def)
next
  case False
  with assms show ?thesis by (simp add: generate_result)
qed

lemma tick_inv: "env_inv s \<Longrightarrow> env_inv (s\<lparr>steps := steps s + 1\<rparr>)"
  by (simp add: env_inv_def config_ok_def nodes_ok_def clock_ok_def counts_exact_def)

lemma step_inv:
  assumes "env_inv s"
  shows "env_inv (snd (step d_node d_event a s))"
proof -
  obtain r s1 where e: "event_effect d_node a s = (r, s1)"
    by (cases "event_effect d_node a s")
  from effect_inv [OF assms, of d_node a] e have i1: "env_inv s1" by simp
  show ?thesis
  proof (cases r)
    case (Inl err)
    with e i1 show ?thesis by (simp add: step_effect)
  next
    case (Inr ri)
    obtain u s2 where g: "generate_next_event d_event (s1\<lparr>steps := steps s1 + 1\<rparr>) = (u, s2)"
      by (cases "generate_next_event d_event (s1\<lparr>steps := steps s1 + 1\<rparr>)")
    from generate_inv [OF tick_inv [OF i1], of d_event] g have "env_inv s2" by simp
    with e Inr g show ?thesis
      by (cases ri) (simp add: step_effect split: sum.splits)
  qed
qed

lemma reachable_inv: "reachable s \<Longrightarrow> env_inv s"
proof (induction rule: reachable.induct)
  case (constructed n k m c ps s)
  then show ?case by (rule init_inv)
next
  case (after_reset s)
  then have "config_ok s" by (simp add: env_inv_def)
  then show ?case by (rule reset_inv)
next
  case (after_step s d_node d_event action)
  then show ?case by (simp add: step_inv)
qed

lemma run_steps_reachable: "reachable s \<Longrightarrow> reachable (run_steps cs s)"
proof (induction cs arbitrary: s)
  case Nil
  then show ?case by simp
next
  case (Cons c cs)
  obtain dn de a where c: "c = (dn, de, a)" by (cases c)
  from Cons.prems have "reachable (snd (step dn de a s))" by (rule after_step)
  then show ?case unfolding c by (simp add: Cons.IH)
qed

subsection \<open>Steps on events other than an arrival\<close>

text \<open>
  Claim C7.  When the current event is not \<open>agent_arrival\<close>, two calls of \<open>step\<close> with
  different actions and the same draws give the same result (observation, reward,
  flags, info, or the same exception) and leave the same environment.
\<close>

theorem non_arrival_ignores_action:
  "current_event s \<noteq> ''agent_arrival'' \<Longrightarrow>
   step d_node d_event a1 s = step d_node d_event a2 s"
  by (simp add: step_def)

subsection \<open>What a returning step reports\<close>

lemma step_returns:
  assumes i: "env_inv s"
    and r: "step dn de a s = (Inr (obs, reward, terminated, truncated, info), s')"
  shows "steps s' = steps s + 1" "terminated \<longleftrightarrow> 100 \<le> steps s'" "\<not> truncated"
    "get_observation s' = Inr obs"
    "\<exists>s1. event_effect dn a s = (Inr (reward, info), s1) \<and>
          node_status s' = node_status s1 \<and> node_occupancy s' = node_occupancy s1 \<and>
          num_agents s' = num_agents s1"
proof -
  obtain x s1 where e: "event_effect dn a s = (x, s1)"
    by (cases "event_effect dn a s")
  from r e obtain ri where x: "x = Inr ri"
    by (cases x) (simp_all add: step_effect)
  obtain rw inf where ri: "ri = (rw, inf)" by (cases ri)
  obtain u s2 where g: "generate_next_event de (s1\<lparr>steps := steps s1 + 1\<rparr>) = (u, s2)"
    by (cases "generate_next_event de (s1\<lparr>steps := steps s1 + 1\<rparr>)")
  from r e x ri g obtain v where u: "u = Inr v"
    by (cases u) (simp_all add: step_effect)
  from r e x ri g u obtain ob where o: "get_observation s2 = Inr ob"
    by (cases "get_observation s2") (simp_all add: step_effect)
  from r e x ri g u o have eq: "obs = ob" "reward = rw" "terminated = (max_steps s2 \<le> steps s2)"
    "truncated = False" "info = inf" "s' = s2"
    by (auto simp add: step_effect)
  from g u have s2: "steps s2 = steps s1 + 1" "max_steps s2 = max_steps s1"
    "node_status s2 = node_status s1" "node_occupancy s2 = node_occupancy s1"
    "num_agents s2 = num_agents s1"
    by (auto simp add: generate_result split: if_splits)
  from effect_frame(1,2) [of dn a s] e have s1: "steps s1 = steps s" "max_steps s1 = max_steps s"
    by simp_all
  from i have m: "max_steps s = 100" by (simp add: env_inv_def clock_ok_def)
  show "steps s' = steps s + 1" using eq s2 s1 by simp
  show "terminated \<longleftrightarrow> 100 \<le> steps s'" using eq s2 s1 m by simp
  show "\<not> truncated" using eq by simp
  show "get_observation s' = Inr obs" using eq o by simp
  show "\<exists>s1. event_effect dn a s = (Inr (reward, info), s1) \<and>
          node_status s' = node_status s1 \<and> node_occupancy s' = node_occupancy s1 \<and>
          num_agents s' = num_agents s1"
    using e x ri eq s2 by simp
qed




lemma default_env_constructed: "ServiceDeploymentEnv_init 3 5 10 5 None = Inr default_env"
  by (simp add: default_env_def init_result)

lemma default_env_reachable: "reachable default_env"
  by (rule constructed [OF default_env_constructed])

theorem non_arrival_ignores_action_witness:
  "current_event (run_steps [(0, 2, 0)] default_env) \<noteq> ''agent_arrival''
   \<and> current_event (run_steps [(0, 2, 0)] default_env) = ''node_failure''
   \<and> step 1 0 0 (run_steps [(0, 2, 0)] default_env) = step 1 0 3 (run_steps [(0, 2, 0)] default_env)"
proof -
  have e: "current_event (run_steps [(0, 2, 0)] default_env) = ''node_failure''"
    by code_simp
  then have h: "current_event (run_steps [(0, 2, 0)] default_env) \<noteq> ''agent_arrival''"
    by simp
  from non_arrival_ignores_action [OF h, of 1 0 0 3] h e show ?thesis by simp
qed


subsection \<open>Agents, occupancy and node status\<close>

lemma Nats_less_succ_le:
  assumes "(x :: real) \<in> \<nat>" and "c \<in> \<nat>" and "x = 0 \<or> x < c + 1"
  shows "x \<le> c"
proof -
  from assms(1,2) obtain m n where "x = of_nat m" "c = of_nat n"
    by (auto elim!: Nats_cases)
  with assms(3) show ?thesis
    by (auto simp flip: of_nat_Suc simp add: of_nat_less_iff)
qed


lemma generate_config:
  "num_nodes (snd (generate_next_event d s)) = num_nodes s"
  "max_agents (snd (generate_next_event d s)) = max_agents s"
  "default_node_capacity (snd (generate_next_event d s)) = default_node_capacity s"
  "event_probabilities (snd (generate_next_event d s)) = event_probabilities s"
  "node_status (snd (generate_next_event d s)) = node_status s"
  "node_occupancy (snd (generate_next_event d s)) = node_occupancy s"
  "node_capacity (snd (generate_next_event d s)) = node_capacity s"
  "num_agents (snd (generate_next_event d s)) = num_agents s"
  by (simp_all add: generate_result)


subsection \<open>A float32 occupancy that has stopped counting\<close>

lemma only_arrivals:
  "valid_p 5 [1, 0, 0, 0, 0]"
  "filter (\<lambda>i. 0 < [1, 0, 0, 0, 0 :: real] ! i) [0..<5] = [0]"
  by code_simp+

lemma choice_singleton: "choice d [x] = x"
  by (simp add: choice_def)

lemma generate_arrival:
  assumes "EVENT_TYPES s = [''agent_arrival'', ''agent_departure'', ''node_failure'',
                            ''node_recovery'', ''no_event'']"
    and "event_probabilities s = [1, 0, 0, 0, 0]"
  shows "generate_next_event d s =
           (Inr (), s\<lparr>current_event_idx := 0, current_event := ''agent_arrival''\<rparr>)"
proof -
  have l: "length (EVENT_TYPES s) = 5"
    unfolding assms by simp
  have v: "valid_p (length (EVENT_TYPES s)) (event_probabilities s)"
    unfolding l assms(2) by (rule only_arrivals)
  have c: "choice d (filter (\<lambda>i. 0 < event_probabilities s ! i) [0..<length (EVENT_TYPES s)]) = 0"
    unfolding l assms(2) only_arrivals by (rule choice_singleton)
  show ?thesis
    unfolding generate_result c using v by (simp add: assms(1))
qed

lemma arrivals_env_result:
  "m \<noteq> 0 \<Longrightarrow> ServiceDeploymentEnv_init 1 5 m 33554432 (Some [1, 0, 0, 0, 0]) = Inr (arrivals_env m)"
  by (simp add: arrivals_env_def init_result)

lemma arrivals_observation:
  "m \<noteq> 0 \<Longrightarrow>
   get_observation (arrivals_state m k) =
     Inr [Fin 1, Fin 0, Fin 0, Fin 0, Fin 0, Fin 1, Fin (min (real k) 16777216 / 33554432),
          Fin (real k / real_of_int m)]"
proof -
  have r: "(replicate 5 0)[0 := 1] = [1, 0, 0, 0, 0 :: real]"
    by code_simp
  assume "m \<noteq> 0"
  then show ?thesis
    by (simp add: get_observation_def arrivals_state_def np_index_def np_true_divide_def
        np_broadcast_def float_div_def r)
qed

lemma arrivals_first_step:
  assumes "m \<noteq> 0"
  shows "snd (step dn de a (arrivals_env m)) = arrivals_state m 0"
proof -
  let ?e = "arrivals_env m"
  have v: "arrivals_env m =
     \<lparr>num_nodes = 1, num_services = 5, max_agents = m, default_node_capacity = 33554432,
      event_probabilities = [1, 0, 0, 0, 0],
      EVENT_TYPES = [''agent_arrival'', ''agent_departure'', ''node_failure'', ''node_recovery'',
                     ''no_event''],
      num_event_types = 5, action_space = 2, observation_space = 8,
      node_status = [1], node_occupancy = [0], node_capacity = [33554432],
      num_agents = 0, current_event = ''no_event'', current_event_idx = 4,
      steps = 0, max_steps = 100\<rparr>"
    using assms by (simp add: arrivals_env_def init_result)
  have ee: "event_effect dn a ?e = (Inr (0, []), ?e)"
    unfolding v by (simp add: event_effect_def)
  have g: "generate_next_event de (?e\<lparr>steps := steps ?e + 1\<rparr>) = (Inr (), arrivals_state m 0)"
    unfolding v by (subst generate_arrival) (simp_all add: arrivals_state_def)
  note o = arrivals_observation [OF assms, of 0]
  show ?thesis
    unfolding step_effect ee prod.case sum.case g o by simp
qed

lemma arrivals_next_step:
  assumes "m \<noteq> 0"
  shows "snd (step dn de 0 (arrivals_state m k)) = arrivals_state m (Suc k)"
    and "reward_of (step dn de 0 (arrivals_state m k)) = Inr 1"
    and "fst (step dn de 0 (arrivals_state m k)) =
           Inr ([Fin 1, Fin 0, Fin 0, Fin 0, Fin 0, Fin 1,
                 Fin (min (real (Suc k)) 16777216 / 33554432), Fin (real (Suc k) / real_of_int m)],
                1, 100 \<le> int k + 2, False, [(''deployment'', Str ''success'')])"
proof -
  let ?s = "arrivals_state m k"
  let ?s1 = "?s\<lparr>node_occupancy := [min (real (Suc k)) 16777216], num_agents := int k + 1\<rparr>"
  have f: "f32_add_one (min (real k) 16777216) = min (real (Suc k)) 16777216"
    by (simp add: f32_add_one_def min_def)
  have g: "min (real k) 16777216 < 33554432"
    by (simp add: min_def)
  have e: "on_agent_arrival 0 ?s = (Inr (1, [(''deployment'', Str ''success'')]), ?s1)"
    unfolding on_agent_arrival_def
    by (simp add: arrivals_state_def np_getitem_def np_index_def g f Let_def)
  have ev: "current_event ?s = ''agent_arrival''"
    by (simp add: arrivals_state_def)
  have ee: "event_effect dn 0 ?s = (Inr (1, [(''deployment'', Str ''success'')]), ?s1)"
    unfolding event_effect_def ev e by simp
  have gn: "generate_next_event de (?s1\<lparr>steps := steps ?s1 + 1\<rparr>) = (Inr (), arrivals_state m (Suc k))"
    by (subst generate_arrival) (simp_all add: arrivals_state_def)
  note o = arrivals_observation [OF assms, of "Suc k"]
  have st: "step dn de 0 ?s =
      (Inr ([Fin 1, Fin 0, Fin 0, Fin 0, Fin 0, Fin 1,
             Fin (min (real (Suc k)) 16777216 / 33554432), Fin (real (Suc k) / real_of_int m)],
            1, max_steps (arrivals_state m (Suc k)) \<le> steps (arrivals_state m (Suc k)), False,
            [(''deployment'', Str ''success'')]),
       arrivals_state m (Suc k))"
    unfolding step_effect ee prod.case sum.case gn o ..
  show "snd (step dn de 0 ?s) = arrivals_state m (Suc k)"
    unfolding st by simp
  show "reward_of (step dn de 0 ?s) = Inr 1"
    unfolding reward_of_def st by simp
  show "fst (step dn de 0 ?s) =
           Inr ([Fin 1, Fin 0, Fin 0, Fin 0, Fin 0, Fin 1,
                 Fin (min (real (Suc k)) 16777216 / 33554432), Fin (real (Suc k) / real_of_int m)],
                1, 100 \<le> int k + 2, False, [(''deployment'', Str ''success'')])"
    unfolding st by (simp add: arrivals_state_def)
qed

lemma arrivals_run:
  assumes "m \<noteq> 0"
  shows "run_steps (replicate k (0, 0, 0)) (arrivals_state m j) = arrivals_state m (j + k)"
proof (induction k arbitrary: j)
  case 0
  show ?case by simp
next
  case (Suc k)
  show ?case
    using Suc.IH [of "Suc j"] arrivals_next_step(1) [OF assms, of 0 0 j] by simp
qed

lemma arrivals_run_from_env:
  assumes "m \<noteq> 0"
  shows "run_steps (replicate (Suc k) (0, 0, 0)) (arrivals_env m) = arrivals_state m k"
  using arrivals_first_step [OF assms, of 0 0 0] arrivals_run [OF assms, of k 0] by simp

lemma arrivals_reachable:
  assumes "m \<noteq> 0"
  shows "reachable (arrivals_state m k)"
proof -
  have "reachable (arrivals_env m)"
    by (rule constructed [OF arrivals_env_result [OF assms]])
  then have "reachable (run_steps (replicate (Suc k) (0, 0, 0)) (arrivals_env m))"
    by (rule run_steps_reachable)
  then show ?thesis
    by (simp only: arrivals_run_from_env [OF assms])
qed



subsection \<open>Steps on an arrival\<close>

lemma step_ok:
  assumes i: "env_inv s"
    and e: "event_effect dn a s = (Inr (rw, nfo), s1)"
    and v: "valid_p (length (EVENT_TYPES s)) (event_probabilities s)"
  shows "\<exists>obs s'. step dn de a s = (Inr (obs, rw, 100 \<le> steps s + 1, False, nfo), s')
           \<and> node_status s' = node_status s1 \<and> node_occupancy s' = node_occupancy s1
           \<and> num_agents s' = num_agents s1 \<and> node_capacity s' = node_capacity s
           \<and> steps s' = steps s + 1
           \<and> current_event_idx s' =
                 int (choice de (filter (\<lambda>i. 0 < event_probabilities s ! i) [0..<length (EVENT_TYPES s)]))
           \<and> current_event s' = EVENT_TYPES s !
                 choice de (filter (\<lambda>i. 0 < event_probabilities s ! i) [0..<length (EVENT_TYPES s)])"
proof -
  from effect_inv [OF i, of dn a] e have i1: "env_inv s1" by simp
  from effect_frame [of dn a s] e have f: "steps s1 = steps s" "max_steps s1 = max_steps s"
    "event_probabilities s1 = event_probabilities s" "EVENT_TYPES s1 = EVENT_TYPES s"
    "node_capacity s1 = node_capacity s"
    by simp_all
  let ?t = "s1\<lparr>steps := steps s1 + 1\<rparr>"
  obtain u s2 where g: "generate_next_event de ?t = (u, s2)"
    by (cases "generate_next_event de ?t")
  from v f have v': "valid_p (length (EVENT_TYPES ?t)) (event_probabilities ?t)" by simp
  from g v' have u: "u = Inr ()" by (simp add: generate_result)
  from generate_inv [OF tick_inv [OF i1], of de] g have i2: "env_inv s2" by simp
  from generate_config(5-8) [of de ?t] g
  have n2: "node_status s2 = node_status s1" "node_occupancy s2 = node_occupancy s1"
    "node_capacity s2 = node_capacity s1" "num_agents s2 = num_agents s1"
    by simp_all
  from g v' f have t2: "steps s2 = steps s + 1" "max_steps s2 = max_steps s"
    "current_event_idx s2 =
       int (choice de (filter (\<lambda>i. 0 < event_probabilities s ! i) [0..<length (EVENT_TYPES s)]))"
    "current_event s2 = EVENT_TYPES s !
       choice de (filter (\<lambda>i. 0 < event_probabilities s ! i) [0..<length (EVENT_TYPES s)])"
    by (auto simp add: generate_result)
  from i have m: "max_steps s = 100" by (simp add: env_inv_def clock_ok_def)
  from i2 obtain obs where o: "get_observation s2 = Inr obs"
    using get_observation_ok [of s2] by (auto simp add: env_inv_def)
  have "step dn de a s = (Inr (obs, rw, 100 \<le> steps s + 1, False, nfo), s2)"
    by (simp add: step_effect e g u o t2 m)
  with n2 t2 f show ?thesis by simp
qed

text \<open>
  Claim C4, amended.  In a reachable environment whose current event is
  \<open>agent_arrival\<close> and whose event probabilities are a distribution, \<open>step(action)\<close>
  with \<open>0 \<le> action \<le> num_nodes\<close> returns.  For \<open>action < num_nodes\<close> the reward is
  \<open>+1\<close> if and only if the target node is active and its occupancy is strictly below
  its capacity, and then \<open>num_agents\<close> has grown by 1 and that node's occupancy has
  grown by 1 if it was below \<open>2^24\<close>; an occupancy of \<open>2^24\<close>, the largest there
  is, stays as it is, the array being float32.  Otherwise the reward is \<open>-1\<close> and
  \<open>node_status\<close>, \<open>node_occupancy\<close> and \<open>num_agents\<close> are unchanged.  For
  \<open>action = num_nodes\<close> the reward is \<open>-0.5\<close> and \<open>node_status\<close>,
  \<open>node_occupancy\<close> and \<open>num_agents\<close> are unchanged.  In every case
  \<open>node_capacity\<close> is unchanged and, as after any step, the step counter has grown by
  1 and the current event is the one that \<open>_generate_next_event\<close> has drawn, an event
  type of positive probability.
\<close>

theorem arrival_step:
  assumes r: "reachable s" and ev: "current_event s = ''agent_arrival''"
    and v: "valid_p (length (EVENT_TYPES s)) (event_probabilities s)"
    and a: "0 \<le> action" "action \<le> num_nodes s"
  shows "\<exists>obs reward terminated truncated info s'.
     step d_node d_event action s = (Inr (obs, reward, terminated, truncated, info), s')
     \<and> (action < num_nodes s \<longrightarrow>
          (reward = 1 \<longleftrightarrow>
             node_status s ! nat action = 1
             \<and> node_occupancy s ! nat action < node_capacity s ! nat action)
          \<and> (reward = 1 \<longrightarrow>
                (node_occupancy s ! nat action < 2 ^ 24 \<longrightarrow>
                   node_occupancy s' =
                     (node_occupancy s)[nat action := node_occupancy s ! nat action + 1])
                \<and> (\<not> node_occupancy s ! nat action < 2 ^ 24 \<longrightarrow>
                     node_occupancy s ! nat action = 2 ^ 24
                     \<and> node_occupancy s' = node_occupancy s)
                \<and> num_agents s' = num_agents s + 1 \<and> node_status s' = node_status s)
          \<and> (reward \<noteq> 1 \<longrightarrow>
                reward = - 1 \<and> node_status s' = node_status s
                \<and> node_occupancy s' = node_occupancy s \<and> num_agents s' = num_agents s))
     \<and> (action = num_nodes s \<longrightarrow>
          reward = - (1 / 2) \<and> node_status s' = node_status s
          \<and> node_occupancy s' = node_occupancy s \<and> num_agents s' = num_agents s)
     \<and> node_capacity s' = node_capacity s
     \<and> steps s' = steps s + 1
     \<and> (terminated \<longleftrightarrow> 100 \<le> steps s') \<and> \<not> truncated
     \<and> current_event_idx s' =
          int (choice d_event (filter (\<lambda>i. 0 < event_probabilities s ! i) [0..<5]))
     \<and> current_event s' =
          EVENT_TYPES s ! choice d_event (filter (\<lambda>i. 0 < event_probabilities s ! i) [0..<5])
     \<and> choice d_event (filter (\<lambda>i. 0 < event_probabilities s ! i) [0..<5]) < 5
     \<and> 0 < event_probabilities s !
              choice d_event (filter (\<lambda>i. 0 < event_probabilities s ! i) [0..<5])"
proof -
  from r have i: "env_inv s" by (rule reachable_inv)
  then have c: "config_ok s" and n: "nodes_ok s" by (simp_all add: env_inv_def)
  from c have l5: "length (EVENT_TYPES s) = 5" by (simp add: config_ok_def)
  let ?k = "choice d_event (filter (\<lambda>i. 0 < event_probabilities s ! i) [0..<5])"
  from ev have ee: "event_effect d_node action s = on_agent_arrival action s"
    by (simp add: event_effect_def)
  have "\<exists>rw nfo s1. on_agent_arrival action s = (Inr (rw, nfo), s1)"
    using a by (simp add: arrival_result [OF c n] Let_def)
  then obtain rw nfo s1 where e: "on_agent_arrival action s = (Inr (rw, nfo), s1)"
    by blast
  from n a have cap: "action < num_nodes s \<Longrightarrow> node_capacity s ! nat action = default_node_capacity s"
    by (simp add: nodes_ok_def)
  from n a have top: "action < num_nodes s \<Longrightarrow> node_occupancy s ! nat action \<le> 2 ^ 24"
    by (simp add: nodes_ok_def)
  have lt: "action < num_nodes s \<Longrightarrow>
      (rw = 1 \<longleftrightarrow> node_status s ! nat action = 1
             \<and> node_occupancy s ! nat action < node_capacity s ! nat action)
      \<and> (rw = 1 \<longrightarrow>
                node_occupancy s1 =
                  (node_occupancy s)[nat action := f32_add_one (node_occupancy s ! nat action)]
                \<and> num_agents s1 = num_agents s + 1 \<and> node_status s1 = node_status s)
      \<and> (rw \<noteq> 1 \<longrightarrow>
                rw = - 1 \<and> node_status s1 = node_status s
                \<and> node_occupancy s1 = node_occupancy s \<and> num_agents s1 = num_agents s)"
    using e a cap by (auto simp add: arrival_result [OF c n] Let_def split: if_splits)
  have f1: "(node_occupancy s)[nat action := f32_add_one (node_occupancy s ! nat action)]
              = (node_occupancy s)[nat action := node_occupancy s ! nat action + 1]"
    if "node_occupancy s ! nat action < 2 ^ 24"
    using that by (simp add: f32_add_one_def)
  have f2: "node_occupancy s ! nat action = 2 ^ 24
            \<and> (node_occupancy s)[nat action := f32_add_one (node_occupancy s ! nat action)]
                = node_occupancy s"
    if "action < num_nodes s" "\<not> node_occupancy s ! nat action < 2 ^ 24"
  proof -
    from that top have "node_occupancy s ! nat action = 2 ^ 24" by simp
    moreover have "f32_add_one (node_occupancy s ! nat action) = node_occupancy s ! nat action"
      using that(2) by (simp add: f32_add_one_def)
    then have "(node_occupancy s)[nat action := f32_add_one (node_occupancy s ! nat action)]
                = node_occupancy s"
      by (simp only: list_update_id)
    ultimately show ?thesis by (rule conjI)
  qed
  have eq: "action = num_nodes s \<Longrightarrow>
          rw = - (1 / 2) \<and> node_status s1 = node_status s
          \<and> node_occupancy s1 = node_occupancy s \<and> num_agents s1 = num_agents s"
    using e by (auto simp add: arrival_result [OF c n])
  from step_ok [OF i _ v, of d_node action rw nfo s1 d_event] ee e
  obtain obs s' where st: "step d_node d_event action s = (Inr (obs, rw, 100 \<le> steps s + 1, False, nfo), s')"
    and fr: "node_status s' = node_status s1" "node_occupancy s' = node_occupancy s1"
      "num_agents s' = num_agents s1" "node_capacity s' = node_capacity s"
      "steps s' = steps s + 1"
    and nx: "current_event_idx s' = int ?k" "current_event s' = EVENT_TYPES s ! ?k"
    unfolding l5 by auto
  from v have v5: "valid_p 5 (event_probabilities s)" unfolding l5 .
  from choice_in_set [OF valid_p_support [OF v5], of d_event]
  have k: "?k < 5" "0 < event_probabilities s ! ?k"
    by simp_all
  show ?thesis
    apply (intro exI conjI)
                 apply (rule st)
    using lt eq fr nx k f1 f2 by simp_all
qed

theorem arrival_step_witness:
  "reachable (run_steps [(0, 0, 0)] default_env)
   \<and> current_event (run_steps [(0, 0, 0)] default_env) = ''agent_arrival''
   \<and> valid_p (length (EVENT_TYPES (run_steps [(0, 0, 0)] default_env)))
         (event_probabilities (run_steps [(0, 0, 0)] default_env))
   \<and> (0 :: int) \<le> 0 \<and> 0 \<le> num_nodes (run_steps [(0, 0, 0)] default_env)
   \<and> (\<exists>obs terminated truncated info s'.
         step 0 0 0 (run_steps [(0, 0, 0)] default_env) = (Inr (obs, 1, terminated, truncated, info), s')
         \<and> node_occupancy s' = [1, 0, 0] \<and> num_agents s' = 1 \<and> node_status s' = [1, 1, 1]
         \<and> steps s' = 2 \<and> current_event s' = ''agent_arrival'')"
proof -
  let ?s = "run_steps [(0, 0, 0)] default_env"
  have r: "reachable ?s" by (rule run_steps_reachable [OF default_env_reachable])
  have ev: "current_event ?s = ''agent_arrival''" by code_simp
  have v: "valid_p (length (EVENT_TYPES ?s)) (event_probabilities ?s)" by code_simp
  have f: "num_nodes ?s = 3" "node_status ?s = [1, 1, 1]" "node_occupancy ?s = [0, 0, 0]"
    "node_capacity ?s = [5, 5, 5]" "num_agents ?s = 0" "steps ?s = 1"
    by code_simp+
  have nx: "EVENT_TYPES ?s ! choice 0 (filter (\<lambda>i. 0 < event_probabilities ?s ! i) [0..<5])
              = ''agent_arrival''"
    by code_simp
  have a: "(0 :: int) \<le> 0" "0 \<le> num_nodes ?s" unfolding f by simp_all
  from arrival_step [OF r ev v a, of 0 0]
  obtain obs reward terminated truncated info s' where
    st: "step 0 0 0 ?s = (Inr (obs, reward, terminated, truncated, info), s')"
    and lt: "0 < num_nodes ?s \<longrightarrow>
          (reward = 1 \<longleftrightarrow>
             node_status ?s ! nat 0 = 1 \<and> node_occupancy ?s ! nat 0 < node_capacity ?s ! nat 0)
          \<and> (reward = 1 \<longrightarrow>
                (node_occupancy ?s ! nat 0 < 2 ^ 24 \<longrightarrow>
                   node_occupancy s' = (node_occupancy ?s)[nat 0 := node_occupancy ?s ! nat 0 + 1])
                \<and> num_agents s' = num_agents ?s + 1 \<and> node_status s' = node_status ?s)"
    and sp: "steps s' = steps ?s + 1"
    and ce: "current_event s' =
          EVENT_TYPES ?s ! choice 0 (filter (\<lambda>i. 0 < event_probabilities ?s ! i) [0..<5])"
    by blast
  from lt have rw: "reward = 1" unfolding f by simp
  with lt have "node_occupancy s' = [1, 0, 0]" "num_agents s' = 1" "node_status s' = [1, 1, 1]"
    unfolding f by simp_all
  with st rw sp f(6) r ev v a ce nx show ?thesis by auto
qed

text \<open>
  The claim as stated says that every accepted arrival raises the occupancy of the node
  by 1.  \<open>node_occupancy\<close> is a float32 array, and \<open>+= 1.0\<close> leaves an entry of
  \<open>2^24 = 16777216\<close> as it is.  With one node of capacity \<open>2^25\<close> and arrivals only,
  the environment after its first step and \<open>2^24\<close> accepted arrivals holds the
  occupancy \<open>16777216\<close>; the node is active and below its capacity, the next arrival
  is accepted with reward \<open>+1\<close> and raises \<open>num_agents\<close> to \<open>16777217\<close>, and the
  occupancy still is \<open>16777216\<close>.
\<close>

theorem accepted_arrival_keeps_occupancy:
  "ServiceDeploymentEnv_init 1 5 10 33554432 (Some [1, 0, 0, 0, 0]) = Inr (arrivals_env 10)
   \<and> run_steps (replicate (Suc 16777216) (0, 0, 0)) (arrivals_env 10) = arrivals_state 10 16777216
   \<and> current_event (arrivals_state 10 16777216) = ''agent_arrival''
   \<and> num_nodes (arrivals_state 10 16777216) = 1
   \<and> node_status (arrivals_state 10 16777216) = [1]
   \<and> node_occupancy (arrivals_state 10 16777216) = [16777216]
   \<and> node_capacity (arrivals_state 10 16777216) = [33554432]
   \<and> num_agents (arrivals_state 10 16777216) = 16777216
   \<and> reward_of (step 0 0 0 (arrivals_state 10 16777216)) = Inr 1
   \<and> node_occupancy (snd (step 0 0 0 (arrivals_state 10 16777216))) = [16777216]
   \<and> num_agents (snd (step 0 0 0 (arrivals_state 10 16777216))) = 16777217"
proof -
  have m: "(10 :: int) \<noteq> 0" by simp
  have b: "current_event (arrivals_state 10 16777216) = ''agent_arrival''"
    "num_nodes (arrivals_state 10 16777216) = 1"
    "node_status (arrivals_state 10 16777216) = [1]"
    "node_occupancy (arrivals_state 10 16777216) = [16777216]"
    "node_capacity (arrivals_state 10 16777216) = [33554432]"
    "num_agents (arrivals_state 10 16777216) = 16777216"
    by (simp_all add: arrivals_state_def)
  note n = arrivals_next_step [OF m, of 0 0 16777216]
  have c: "node_occupancy (snd (step 0 0 0 (arrivals_state 10 16777216))) = [16777216]"
    "num_agents (snd (step 0 0 0 (arrivals_state 10 16777216))) = 16777217"
    unfolding n(1) by (simp_all add: arrivals_state_def)
  from arrivals_env_result [OF m] arrivals_run_from_env [OF m, of 16777216] b n(2) c
  show ?thesis by blast
qed

subsection \<open>Observations\<close>

lemma sum_list_le_bound:
  "\<forall>i < length xs. xs ! i \<le> (c :: real) \<Longrightarrow> sum_list xs \<le> real (length xs) * c"
proof (induction xs)
  case Nil
  show ?case by simp
next
  case (Cons x xs)
  from Cons.prems have "x \<le> c" by auto
  moreover from Cons.prems have "\<forall>i < length xs. xs ! i \<le> c" by auto
  with Cons.IH have "sum_list xs \<le> real (length xs) * c" by simp
  ultimately show ?case by (simp add: algebra_simps)
qed

lemma reset_returns:
  assumes "reset s = (Inr (obs, i), s')"
  shows "get_observation s' = Inr obs" "s' = snd (reset s)"
  using assms
  by (auto simp add: reset_def Let_def split: if_splits sum.splits)

text \<open>
  Claim C5, amended.  Every observation that \<open>reset\<close> or \<open>step\<close> returns in a reachable
  environment has length \<open>num_event_types + 2 * num_nodes + 1\<close> and is the one-hot
  vector of the current event, then \<open>node_status\<close>, then the occupancy of each node
  divided by its capacity, then \<open>num_agents / max_agents\<close>.  The normalized occupancy
  entries lie in \<open>[0, 1]\<close> when the configured capacity is a positive whole number.
  The last entry lies in \<open>[0, 1]\<close> when moreover \<open>max_agents\<close> is positive,
  \<open>num_nodes * capacity \<le> max_agents\<close> and \<open>num_nodes * capacity \<le> 2^24\<close>, the
  range in which the float32 occupancies count every agent.
\<close>

theorem observation_vector:
  assumes r: "reachable s"
    and em: "(\<exists>i. reset s = (Inr (obs, i), s'))
       \<or> (\<exists>d_node d_event action reward terminated truncated i.
             step d_node d_event action s = (Inr (obs, reward, terminated, truncated, i), s'))"
  shows "length obs = num_event_types s' + 2 * nat (num_nodes s') + 1
     \<and> int (length obs) = observation_space s'
     \<and> obs = map Fin ((replicate (num_event_types s') 0)[nat (current_event_idx s') := 1])
             @ map Fin (node_status s')
             @ map2 float_div (node_occupancy s') (node_capacity s')
             @ [Fin (real_of_int (num_agents s') / real_of_int (max_agents s'))]
     \<and> EVENT_TYPES s' ! nat (current_event_idx s') = current_event s'
     \<and> (0 < default_node_capacity s' \<and> default_node_capacity s' \<in> \<nat> \<longrightarrow>
          (\<forall>i < nat (num_nodes s').
             \<exists>v. obs ! (num_event_types s' + nat (num_nodes s') + i) = Fin v \<and> 0 \<le> v \<and> v \<le> 1))
     \<and> (0 < default_node_capacity s' \<and> default_node_capacity s' \<in> \<nat> \<and> 0 < max_agents s'
          \<and> real_of_int (num_nodes s') * default_node_capacity s' \<le> real_of_int (max_agents s')
          \<and> real_of_int (num_nodes s') * default_node_capacity s' \<le> 2 ^ 24 \<longrightarrow>
          (\<exists>v. obs ! (num_event_types s' + 2 * nat (num_nodes s')) = Fin v \<and> 0 \<le> v \<and> v \<le> 1))"
proof -
  from r have i: "env_inv s" by (rule reachable_inv)
  have g: "get_observation s' = Inr obs" and i': "env_inv s'"
  proof -
    from em show "get_observation s' = Inr obs"
    proof (elim disjE exE)
      fix nfo assume "reset s = (Inr (obs, nfo), s')"
      then show ?thesis by (rule reset_returns)
    next
      fix dn de a rw t tr nfo
      assume "step dn de a s = (Inr (obs, rw, t, tr, nfo), s')"
      then show ?thesis by (rule step_returns(4) [OF i])
    qed
    from em show "env_inv s'"
    proof (elim disjE exE)
      fix nfo assume "reset s = (Inr (obs, nfo), s')"
      then have "s' = snd (reset s)" by simp
      with i show ?thesis using reset_inv(1) [of s] by (simp add: env_inv_def)
    next
      fix dn de a rw t tr nfo
      assume "step dn de a s = (Inr (obs, rw, t, tr, nfo), s')"
      then have "s' = snd (step dn de a s)" by simp
      with step_inv [OF i, of dn de a] show ?thesis by simp
    qed
  qed
  from i' have c: "config_ok s'" and n: "nodes_ok s'" and k: "clock_ok s'"
    by (simp_all add: env_inv_def)
  let ?n = "nat (num_nodes s')"
  let ?cap = "default_node_capacity s'"
  from n have l: "length (node_status s') = ?n" "length (node_occupancy s') = ?n"
    "node_capacity s' = replicate ?n ?cap"
    and su: "counts_exact s' \<longrightarrow> real_of_int (num_agents s') = sum_list (node_occupancy s')"
    by (simp_all add: nodes_ok_def)
  from c have ne: "num_event_types s' = 5" and nn: "0 \<le> num_nodes s'"
    and os: "observation_space s' = 5 + 2 * num_nodes s' + 1"
    by (simp_all add: config_ok_def)
  from get_observation_ok [OF c n k] g
  have o: "obs = map Fin ((replicate 5 0)[nat (current_event_idx s') := 1])
             @ map Fin (node_status s')
             @ map2 float_div (node_occupancy s') (node_capacity s')
             @ [Fin (real_of_int (num_agents s') / real_of_int (max_agents s'))]"
    by simp
  have len: "length obs = 5 + 2 * ?n + 1"
    unfolding o using l by simp
  have occ: "0 \<le> node_occupancy s' ! j \<and> node_occupancy s' ! j \<le> ?cap"
    if "j < ?n" "?cap \<in> \<nat>" for j
  proof -
    from n that(1) have a: "node_occupancy s' ! j \<in> \<nat>"
      and b: "node_occupancy s' ! j = 0 \<or> node_occupancy s' ! j < ?cap + 1"
      by (simp_all add: nodes_ok_def)
    from a have "0 \<le> node_occupancy s' ! j" by (auto elim: Nats_cases)
    with Nats_less_succ_le [OF a that(2) b] show ?thesis by simp
  qed
  have norm: "\<exists>v. obs ! (5 + ?n + j) = Fin v \<and> 0 \<le> v \<and> v \<le> 1"
    if p: "0 < ?cap" "?cap \<in> \<nat>" and j: "j < ?n" for j
  proof -
    have "obs ! (5 + ?n + j) = float_div (node_occupancy s' ! j) ?cap"
      unfolding o using l j by (simp add: nth_append)
    also have "\<dots> = Fin (node_occupancy s' ! j / ?cap)"
      using p by (simp add: float_div_def)
    finally show ?thesis
      using occ [OF j p(2)] p(1) by simp
  qed
  have agents: "\<exists>v. obs ! (5 + 2 * ?n) = Fin v \<and> 0 \<le> v \<and> v \<le> 1"
    if p: "0 < ?cap" "?cap \<in> \<nat>" and m: "0 < max_agents s'"
      and b: "real_of_int (num_nodes s') * ?cap \<le> real_of_int (max_agents s')"
      and x: "real_of_int (num_nodes s') * ?cap \<le> 2 ^ 24"
  proof -
    from su p(2) x have su: "real_of_int (num_agents s') = sum_list (node_occupancy s')"
      by (simp add: counts_exact_def)
    have e: "obs ! (5 + 2 * ?n) = Fin (real_of_int (num_agents s') / real_of_int (max_agents s'))"
      unfolding o using l by (simp add: nth_append)
    have "\<forall>j < length (node_occupancy s'). node_occupancy s' ! j \<le> ?cap"
      using occ p(2) l by simp
    then have "sum_list (node_occupancy s') \<le> real (length (node_occupancy s')) * ?cap"
      by (rule sum_list_le_bound)
    also have "\<dots> = real_of_int (num_nodes s') * ?cap"
      using l nn by simp
    finally have up: "real_of_int (num_agents s') \<le> real_of_int (max_agents s')"
      using su b by simp
    have "\<forall>j < length (node_occupancy s'). node_occupancy s' ! j \<in> \<nat>"
      using n by (simp add: nodes_ok_def)
    then have "0 \<le> sum_list (node_occupancy s')"
      using sum_list_Nats_nonneg by blast
    with su have lo: "0 \<le> real_of_int (num_agents s')" by simp
    from lo up m have "0 \<le> real_of_int (num_agents s') / real_of_int (max_agents s')"
      "real_of_int (num_agents s') / real_of_int (max_agents s') \<le> 1"
      by simp_all
    with e show ?thesis by simp
  qed
  from k c have ev: "EVENT_TYPES s' ! nat (current_event_idx s') = current_event s'"
    by (simp add: clock_ok_def)
  from len os nn have lo: "int (length obs) = observation_space s'" by simp
  from len o ev norm agents lo show ?thesis
    unfolding ne by blast
qed


theorem observation_vector_witness:
  "reachable (run_steps [(0, 0, 0)] (projr (ServiceDeploymentEnv_init 2 5 10 5 None)))
   \<and> step 0 0 0 (run_steps [(0, 0, 0)] (projr (ServiceDeploymentEnv_init 2 5 10 5 None)))
       = (Inr ([Fin 1, Fin 0, Fin 0, Fin 0, Fin 0, Fin 1, Fin 1, Fin (1 / 5), Fin 0, Fin (1 / 10)],
               1, False, False, [(''deployment'', Str ''success'')]),
          run_steps [(0, 0, 0), (0, 0, 0)] (projr (ServiceDeploymentEnv_init 2 5 10 5 None)))
   \<and> default_node_capacity
         (run_steps [(0, 0, 0), (0, 0, 0)] (projr (ServiceDeploymentEnv_init 2 5 10 5 None))) = 5
   \<and> max_agents
         (run_steps [(0, 0, 0), (0, 0, 0)] (projr (ServiceDeploymentEnv_init 2 5 10 5 None))) = 10
   \<and> num_nodes
         (run_steps [(0, 0, 0), (0, 0, 0)] (projr (ServiceDeploymentEnv_init 2 5 10 5 None))) = 2
   \<and> length [Fin 1, Fin 0, Fin 0, Fin 0, Fin 0, Fin 1, Fin 1, Fin (1 / 5), Fin 0, Fin (1 / 10)]
       = 5 + 2 * 2 + 1
   \<and> (\<exists>v. [Fin 1, Fin 0, Fin 0, Fin 0, Fin 0, Fin 1, Fin 1, Fin (1 / 5), Fin 0, Fin (1 / 10)]
             ! (5 + 2 + 0) = Fin v \<and> 0 \<le> v \<and> v \<le> 1)
   \<and> (\<exists>v. [Fin 1, Fin 0, Fin 0, Fin 0, Fin 0, Fin 1, Fin 1, Fin (1 / 5), Fin 0, Fin (1 / 10)]
             ! (5 + 2 * 2) = Fin v \<and> 0 \<le> v \<and> v \<le> 1)"
proof -
  let ?e = "projr (ServiceDeploymentEnv_init 2 5 10 5 None)"
  let ?s = "run_steps [(0, 0, 0)] ?e"
  let ?s' = "run_steps [(0, 0, 0), (0, 0, 0)] ?e"
  let ?obs = "[Fin 1, Fin 0, Fin 0, Fin 0, Fin 0, Fin 1, Fin 1, Fin (1 / 5), Fin 0, Fin (1 / 10)]"
  have "ServiceDeploymentEnv_init 2 5 10 5 None = Inr ?e"
    by (simp add: init_result)
  then have "reachable ?e" by (rule constructed)
  then have r: "reachable ?s" by (rule run_steps_reachable)
  have st: "step 0 0 0 ?s = (Inr (?obs, 1, False, False, [(''deployment'', Str ''success'')]), ?s')"
    by code_simp
  have f: "default_node_capacity ?s' = 5" "max_agents ?s' = 10" "num_nodes ?s' = 2"
    "num_event_types ?s' = 5"
    by code_simp+
  have h1: "0 < default_node_capacity ?s' \<and> default_node_capacity ?s' \<in> \<nat>"
    unfolding f by simp
  have h2: "0 < default_node_capacity ?s' \<and> default_node_capacity ?s' \<in> \<nat> \<and> 0 < max_agents ?s'
          \<and> real_of_int (num_nodes ?s') * default_node_capacity ?s' \<le> real_of_int (max_agents ?s')
          \<and> real_of_int (num_nodes ?s') * default_node_capacity ?s' \<le> 2 ^ 24"
    unfolding f by simp
  have em: "(\<exists>i. reset ?s = (Inr (?obs, i), ?s'))
       \<or> (\<exists>d_node d_event action reward terminated truncated i.
             step d_node d_event action ?s = (Inr (?obs, reward, terminated, truncated, i), ?s'))"
    using st by blast
  note ov = observation_vector [OF r em]
  from ov have a: "length ?obs = num_event_types ?s' + 2 * nat (num_nodes ?s') + 1"
    by blast
  from ov h1 have "\<forall>i < nat (num_nodes ?s').
             \<exists>v. ?obs ! (num_event_types ?s' + nat (num_nodes ?s') + i) = Fin v \<and> 0 \<le> v \<and> v \<le> 1"
    by blast
  then have "0 < nat (num_nodes ?s') \<longrightarrow>
      (\<exists>v. ?obs ! (num_event_types ?s' + nat (num_nodes ?s') + 0) = Fin v \<and> 0 \<le> v \<and> v \<le> 1)"
    by blast
  then have b: "\<exists>v. ?obs ! (5 + 2 + 0) = Fin v \<and> 0 \<le> v \<and> v \<le> 1"
    unfolding f by simp
  from ov h2 have "\<exists>v. ?obs ! (num_event_types ?s' + 2 * nat (num_nodes ?s')) = Fin v \<and> 0 \<le> v \<and> v \<le> 1"
    by blast
  then have c: "\<exists>v. ?obs ! (5 + 2 * 2) = Fin v \<and> 0 \<le> v \<and> v \<le> 1"
    unfolding f by simp
  from a have a': "length ?obs = 5 + 2 * 2 + 1" unfolding f by simp
  from r st f(1-3) a' b c show ?thesis by blast
qed

text \<open>
  The claim as stated fails in two ways.  For the default configuration, three nodes of
  capacity 5 hold up to 15 agents and \<open>max_agents\<close> is 10, so that after eleven
  accepted arrivals the last entry of the observation is \<open>1.1\<close>.  And
  \<open>num_nodes * capacity \<le> max_agents\<close> does not bound the entry when the capacity is
  above \<open>2^24\<close>: with one node of capacity \<open>2^25\<close>, \<open>max_agents = 2^25\<close> and
  arrivals only, the occupancy stays at \<open>2^24\<close>, every arrival is accepted, and the
  step that brings \<open>num_agents\<close> to \<open>2^26\<close> returns an observation whose last entry
  is 2.
\<close>

theorem agent_count_entry_above_one:
  "ServiceDeploymentEnv_init 3 5 10 5 None = Inr default_env
   \<and> fst (step 0 0 2
        (run_steps [(0, 0, 0), (0, 0, 0), (0, 0, 0), (0, 0, 0), (0, 0, 0), (0, 0, 0),
                    (0, 0, 1), (0, 0, 1), (0, 0, 1), (0, 0, 1), (0, 0, 1)] default_env))
       = Inr ([Fin 1, Fin 0, Fin 0, Fin 0, Fin 0, Fin 1, Fin 1, Fin 1, Fin 1, Fin 1, Fin (1 / 5),
               Fin (11 / 10)],
              1, False, False, [(''deployment'', Str ''success'')])
   \<and> \<not> (11 / 10 \<le> (1 :: real))
   \<and> ServiceDeploymentEnv_init 1 5 33554432 33554432 (Some [1, 0, 0, 0, 0])
       = Inr (arrivals_env 33554432)
   \<and> run_steps (replicate (Suc 67108863) (0, 0, 0)) (arrivals_env 33554432)
       = arrivals_state 33554432 67108863
   \<and> real_of_int (num_nodes (arrivals_state 33554432 67108863))
         * default_node_capacity (arrivals_state 33554432 67108863)
       \<le> real_of_int (max_agents (arrivals_state 33554432 67108863))
   \<and> fst (step 0 0 0 (arrivals_state 33554432 67108863))
       = Inr ([Fin 1, Fin 0, Fin 0, Fin 0, Fin 0, Fin 1, Fin (1 / 2), Fin 2],
              1, True, False, [(''deployment'', Str ''success'')])
   \<and> \<not> (2 \<le> (1 :: real))"
proof -
  have a: "fst (step 0 0 2
        (run_steps [(0, 0, 0), (0, 0, 0), (0, 0, 0), (0, 0, 0), (0, 0, 0), (0, 0, 0),
                    (0, 0, 1), (0, 0, 1), (0, 0, 1), (0, 0, 1), (0, 0, 1)] default_env))
       = Inr ([Fin 1, Fin 0, Fin 0, Fin 0, Fin 0, Fin 1, Fin 1, Fin 1, Fin 1, Fin 1, Fin (1 / 5),
               Fin (11 / 10)],
              1, False, False, [(''deployment'', Str ''success'')])"
    by code_simp
  have m: "(33554432 :: int) \<noteq> 0" by simp
  have b: "real_of_int (num_nodes (arrivals_state 33554432 67108863))
         * default_node_capacity (arrivals_state 33554432 67108863)
       \<le> real_of_int (max_agents (arrivals_state 33554432 67108863))"
    by (simp add: arrivals_state_def)
  have c: "fst (step 0 0 0 (arrivals_state 33554432 67108863))
       = Inr ([Fin 1, Fin 0, Fin 0, Fin 0, Fin 0, Fin 1, Fin (1 / 2), Fin 2],
              1, True, False, [(''deployment'', Str ''success'')])"
    unfolding arrivals_next_step(3) [OF m] by simp
  have d: "\<not> (11 / 10 \<le> (1 :: real))" "\<not> (2 \<le> (1 :: real))"
    by simp_all
  from a default_env_constructed arrivals_env_result [OF m]
    arrivals_run_from_env [OF m, of 67108863] b c d
  show ?thesis by blast
qed

subsection \<open>What the constructor checks\<close>

lemma invalid_p_step_raises:
  assumes "\<not> valid_p (length (EVENT_TYPES s)) (event_probabilities s)"
  shows "\<exists>e. fst (step dn de a s) = Inl e"
proof -
  obtain x s1 where e: "event_effect dn a s = (x, s1)"
    by (cases "event_effect dn a s")
  from effect_frame(3,4) [of dn a s] e assms
  have "\<not> valid_p (length (EVENT_TYPES (s1\<lparr>steps := steps s1 + 1\<rparr>)))
            (event_probabilities (s1\<lparr>steps := steps s1 + 1\<rparr>))"
    by simp
  then have "fst (generate_next_event de (s1\<lparr>steps := steps s1 + 1\<rparr>)) = Inl ValueError"
    by (simp add: generate_result)
  with e show ?thesis
    by (cases x) (auto simp add: step_effect split: prod.splits sum.splits)
qed

text \<open>
  Claim C6, amended.  The constructor checks neither the capacity nor the event
  probabilities.  It fails for a negative node count.  For a node count that is not
  negative and a positive \<open>max_agents\<close> it returns an environment, whatever the
  capacity and the probability vector are, and stores both as they were given (the
  default vector in place of a missing or empty one).  A probability vector that is
  not a distribution shows only later: every \<open>step\<close> call on such an environment
  raises.
\<close>

theorem construction_checks:
  "(n < 0 \<longrightarrow> ServiceDeploymentEnv_init n k m c ps = Inl AssertionError)
   \<and> (0 \<le> n \<and> 0 < m \<longrightarrow>
        (\<exists>s. ServiceDeploymentEnv_init n k m c ps = Inr s
             \<and> num_nodes s = n
             \<and> default_node_capacity s = c
             \<and> node_capacity s = replicate (nat n) c
             \<and> event_probabilities s =
                 (case ps of None \<Rightarrow> [3 / 10, 2 / 10, 1 / 10, 1 / 10, 3 / 10]
                  | Some qs \<Rightarrow> if qs = [] then [3 / 10, 2 / 10, 1 / 10, 1 / 10, 3 / 10] else qs)))
   \<and> (\<not> valid_p (length (EVENT_TYPES s)) (event_probabilities s) \<longrightarrow>
        (\<exists>e. fst (step d_node d_event action s) = Inl e))"
  using invalid_p_step_raises [of s d_node d_event action]
  by (simp add: init_result)

theorem construction_checks_witness:
  "ServiceDeploymentEnv_init (- 1) 5 10 5 None = Inl AssertionError
   \<and> (\<exists>s. ServiceDeploymentEnv_init 3 5 10 0 (Some [1, 1, 1, 1, 1]) = Inr s
         \<and> num_nodes s = 3 \<and> default_node_capacity s = 0 \<and> node_capacity s = [0, 0, 0]
         \<and> event_probabilities s = [1, 1, 1, 1, 1])
   \<and> \<not> valid_p (length (EVENT_TYPES (projr (ServiceDeploymentEnv_init 3 5 10 0 (Some [1, 1, 1, 1, 1])))))
           (event_probabilities (projr (ServiceDeploymentEnv_init 3 5 10 0 (Some [1, 1, 1, 1, 1]))))
   \<and> (\<exists>e. fst (step 0 0 0 (projr (ServiceDeploymentEnv_init 3 5 10 0 (Some [1, 1, 1, 1, 1])))) = Inl e)"
proof -
  let ?s = "projr (ServiceDeploymentEnv_init 3 5 10 0 (Some [1, 1, 1, 1, 1]))"
  have nv: "\<not> valid_p (length (EVENT_TYPES ?s)) (event_probabilities ?s)"
    by code_simp
  note cc = construction_checks [of "- 1" 5 10 5 None ?s 0 0 0]
    construction_checks [of 3 5 10 0 "Some [1, 1, 1, 1, 1]" ?s 0 0 0]
  from cc(1) have a: "ServiceDeploymentEnv_init (- 1) 5 10 5 None = Inl AssertionError"
    by simp
  from cc(2) have b: "\<exists>s. ServiceDeploymentEnv_init 3 5 10 0 (Some [1, 1, 1, 1, 1]) = Inr s
         \<and> num_nodes s = 3 \<and> default_node_capacity s = 0 \<and> node_capacity s = [0, 0, 0]
         \<and> event_probabilities s = [1, 1, 1, 1, 1]"
    by (simp add: numeral_3_eq_3)
  from cc(2) nv have c: "\<exists>e. fst (step 0 0 0 ?s) = Inl e"
    by blast
  from a b nv c show ?thesis by blast
qed

text \<open>
  The claim as stated fails: a capacity of 0 (whose first observation holds \<open>nan\<close>
  entries), a negative capacity, a node count of 0 and a probability vector that sums
  to 5 are all accepted by the constructor.
\<close>

theorem malformed_configuration_accepted:
  "\<not> isl (ServiceDeploymentEnv_init 3 5 10 0 None)
   \<and> node_capacity (projr (ServiceDeploymentEnv_init 3 5 10 0 None)) = [0, 0, 0]
   \<and> fst (reset (projr (ServiceDeploymentEnv_init 3 5 10 0 None)))
       = Inr ([Fin 0, Fin 0, Fin 0, Fin 0, Fin 1, Fin 1, Fin 1, Fin 1, NaN, NaN, NaN, Fin 0], [])
   \<and> \<not> isl (ServiceDeploymentEnv_init 3 5 10 (- 1) None)
   \<and> node_capacity (projr (ServiceDeploymentEnv_init 3 5 10 (- 1) None)) = [- 1, - 1, - 1]
   \<and> \<not> isl (ServiceDeploymentEnv_init 0 5 10 5 None)
   \<and> num_nodes (projr (ServiceDeploymentEnv_init 0 5 10 5 None)) = 0
   \<and> \<not> isl (ServiceDeploymentEnv_init 3 5 10 5 (Some [1, 1, 1, 1, 1]))
   \<and> event_probabilities (projr (ServiceDeploymentEnv_init 3 5 10 5 (Some [1, 1, 1, 1, 1])))
       = [1, 1, 1, 1, 1]
   \<and> \<not> valid_p 5 [1, 1, 1, 1, 1]"
  by code_simp

section \<open>Properties of the PPO trainer\<close>

text \<open>A mini-batch of \<open>update\<close> is never empty and holds at most \<open>batch_size\<close> indices.\<close>

lemma minibatches_nonempty:
  assumes "minibatches indices batch_size = Inr batches" and "b \<in> set batches"
  shows "b \<noteq> []" "int (length b) \<le> batch_size"
proof -
  from assms have p: "0 < batch_size"
    and bs: "batches = map (\<lambda>start_idx.
                      take (min (start_idx + nat batch_size) (length indices) - start_idx)
                        (drop start_idx indices))
                 (map (\<lambda>k. k * nat batch_size)
                    [0..<(length indices + nat batch_size - 1) div nat batch_size])"
    by (auto simp add: minibatches_def py_range_step_def Let_def split: if_splits)
  from assms(2) bs obtain k where
    k: "k < (length indices + nat batch_size - 1) div nat batch_size"
    and b: "b = take (min (k * nat batch_size + nat batch_size) (length indices) - k * nat batch_size)
                  (drop (k * nat batch_size) indices)"
    by auto
  let ?s = "nat batch_size"
  from p have s: "0 < ?s" by simp
  from k have "Suc k \<le> (length indices + ?s - 1) div ?s" by simp
  then have "Suc k * ?s \<le> length indices + ?s - 1"
    using s by (simp add: less_eq_div_iff_mult_less_eq)
  then have lt: "k * ?s < length indices" using s by simp
  from b lt s show "b \<noteq> []" by auto
  from b p show "int (length b) \<le> batch_size" by auto
qed

lemma sum_list_map2_nth:
  assumes "length xs = n" "length ys = n"
  shows "sum_list (map2 f xs ys) = (\<Sum>i<n. f (xs ! i) (ys ! i))"
proof -
  have "map2 f xs ys = map (\<lambda>i. f (xs ! i) (ys ! i)) [0..<n]"
    using assms by (intro nth_equalityI) simp_all
  then show ?thesis
    by (simp add: interv_sum_list_conv_sum_set_nat atLeast0LessThan)
qed

lemma sum_list_nth: "sum_list xs = (\<Sum>i<length xs. (xs ! i :: real))"
  by (simp add: sum_list_sum_nth atLeast0LessThan)


lemma sum_list_upt: "sum_list (map f [0..<n]) = (\<Sum>i<n. (f i :: real))"
  by (simp add: interv_sum_list_conv_sum_set_nat atLeast0LessThan)

lemma clipped_branch:
  fixes r A eps :: real
  shows "1 + eps < r \<Longrightarrow> 0 \<le> A \<Longrightarrow>
           min (r * A) (clamp r (1 - eps) (1 + eps) * A) = (1 + eps) * A"
    and "r < 1 - eps \<Longrightarrow> A \<le> 0 \<Longrightarrow> 0 \<le> eps \<Longrightarrow>
           min (r * A) (clamp r (1 - eps) (1 + eps) * A) = (1 - eps) * A"
    and "1 + eps < r \<Longrightarrow> A \<le> 0 \<Longrightarrow>
           min (r * A) (clamp r (1 - eps) (1 + eps) * A) = r * A"
    and "r < 1 - eps \<Longrightarrow> 0 \<le> A \<Longrightarrow> 0 \<le> eps \<Longrightarrow>
           min (r * A) (clamp r (1 - eps) (1 + eps) * A) = r * A"
proof -
  show "min (r * A) (clamp r (1 - eps) (1 + eps) * A) = (1 + eps) * A"
    if "1 + eps < r" "0 \<le> A"
  proof -
    from that(1) have c: "clamp r (1 - eps) (1 + eps) = 1 + eps" by (simp add: clamp_def)
    from that have "(1 + eps) * A \<le> r * A" by (intro mult_right_mono) simp_all
    with c show ?thesis by simp
  qed
  show "min (r * A) (clamp r (1 - eps) (1 + eps) * A) = (1 - eps) * A"
    if "r < 1 - eps" "A \<le> 0" "0 \<le> eps"
  proof -
    from that(1,3) have c: "clamp r (1 - eps) (1 + eps) = 1 - eps" by (simp add: clamp_def)
    from that have "(1 - eps) * A \<le> r * A" by (intro mult_right_mono_neg) simp_all
    with c show ?thesis by simp
  qed
  show "min (r * A) (clamp r (1 - eps) (1 + eps) * A) = r * A"
    if "1 + eps < r" "A \<le> 0"
  proof -
    from that(1) have c: "clamp r (1 - eps) (1 + eps) = 1 + eps" by (simp add: clamp_def)
    from that have "r * A \<le> (1 + eps) * A" by (intro mult_right_mono_neg) simp_all
    with c show ?thesis by simp
  qed
  show "min (r * A) (clamp r (1 - eps) (1 + eps) * A) = r * A"
    if "r < 1 - eps" "0 \<le> A" "0 \<le> eps"
  proof -
    from that(1,3) have c: "clamp r (1 - eps) (1 + eps) = 1 - eps" by (simp add: clamp_def)
    from that have "r * A \<le> (1 - eps) * A" by (intro mult_right_mono) simp_all
    with c show ?thesis by simp
  qed
qed

lemma minibatch_losses_sums:
  assumes len: "length lp = B" "length vs = B" "length ent = B" "length olp = B"
      "length ret = B" "length adv = B" "length ov = B"
  shows "policy_loss (minibatch_losses eps vc ec lp vs ent olp ret adv ov) =
           - (\<Sum>i<B. min (exp (lp ! i - olp ! i) * adv ! i)
                        (clamp (exp (lp ! i - olp ! i)) (1 - eps) (1 + eps) * adv ! i)) / real B"
    and "value_loss (minibatch_losses eps vc ec lp vs ent olp ret adv ov) =
           (\<Sum>i<B. max ((vs ! i - ret ! i) ^ 2)
                      ((ov ! i + clamp (vs ! i - ov ! i) (- eps) eps - ret ! i) ^ 2)) / real B"
    and "entropy_loss (minibatch_losses eps vc ec lp vs ent olp ret adv ov) =
           - (\<Sum>i<B. ent ! i) / real B"
    and "loss (minibatch_losses eps vc ec lp vs ent olp ret adv ov) =
           policy_loss (minibatch_losses eps vc ec lp vs ent olp ret adv ov)
           + vc * value_loss (minibatch_losses eps vc ec lp vs ent olp ret adv ov)
           + ec * entropy_loss (minibatch_losses eps vc ec lp vs ent olp ret adv ov)"
proof -
  let ?ratio = "map exp (map2 (-) lp olp)"
  have p: "map2 min (map2 (*) ?ratio adv)
             (map2 (*) (map (\<lambda>r. clamp r (1 - eps) (1 + eps)) ?ratio) adv)
           = map (\<lambda>i. min (exp (lp ! i - olp ! i) * adv ! i)
                        (clamp (exp (lp ! i - olp ! i)) (1 - eps) (1 + eps) * adv ! i)) [0..<B]"
    using len by (intro nth_equalityI) simp_all
  have v: "map2 max (map (\<lambda>d. d ^ 2) (map2 (-) vs ret))
             (map (\<lambda>d. d ^ 2)
                (map2 (-) (map2 (+) ov (map (\<lambda>d. clamp d (- eps) eps) (map2 (-) vs ov))) ret))
           = map (\<lambda>i. max ((vs ! i - ret ! i) ^ 2)
                      ((ov ! i + clamp (vs ! i - ov ! i) (- eps) eps - ret ! i) ^ 2)) [0..<B]"
    using len by (intro nth_equalityI) simp_all
  have e: "ent = map (\<lambda>i. ent ! i) [0..<B]"
    using len by (intro nth_equalityI) simp_all
  have se: "sum_list ent = (\<Sum>i<B. ent ! i)"
    by (subst e) (rule sum_list_upt)
  show "policy_loss (minibatch_losses eps vc ec lp vs ent olp ret adv ov) =
           - (\<Sum>i<B. min (exp (lp ! i - olp ! i) * adv ! i)
                        (clamp (exp (lp ! i - olp ! i)) (1 - eps) (1 + eps) * adv ! i)) / real B"
    unfolding minibatch_losses_def Let_def p by (simp add: tensor_mean_def sum_list_upt)
  show "value_loss (minibatch_losses eps vc ec lp vs ent olp ret adv ov) =
           (\<Sum>i<B. max ((vs ! i - ret ! i) ^ 2)
                      ((ov ! i + clamp (vs ! i - ov ! i) (- eps) eps - ret ! i) ^ 2)) / real B"
    unfolding minibatch_losses_def Let_def v by (simp add: tensor_mean_def sum_list_upt)
  show "entropy_loss (minibatch_losses eps vc ec lp vs ent olp ret adv ov) =
           - (\<Sum>i<B. ent ! i) / real B"
    unfolding minibatch_losses_def Let_def using len by (simp add: tensor_mean_def se)
  show "loss (minibatch_losses eps vc ec lp vs ent olp ret adv ov) =
           policy_loss (minibatch_losses eps vc ec lp vs ent olp ret adv ov)
           + vc * value_loss (minibatch_losses eps vc ec lp vs ent olp ret adv ov)
           + ec * entropy_loss (minibatch_losses eps vc ec lp vs ent olp ret adv ov)"
    by (simp add: minibatch_losses_def Let_def)
qed


text \<open>
  Claim C2, amended.  For a mini-batch of \<open>B > 0\<close> samples, with
  \<open>ratio = exp(new_log_prob - old_log_prob)\<close> per sample: the policy loss is
  \<open>-mean(min(ratio * advantage, clamp(ratio, 1-eps, 1+eps) * advantage))\<close>; the value
  loss is \<open>mean(max((value - return)^2, (clipped_value - return)^2))\<close> with
  \<open>clipped_value = old_value + clamp(value - old_value, -eps, +eps)\<close>; the entropy loss
  is \<open>-mean(entropy)\<close>; the total loss is
  \<open>policy_loss + value_coef * value_loss + entropy_coef * entropy_loss\<close>.  For a sample
  whose ratio lies outside \<open>[1-eps, 1+eps]\<close> the minimum is the clipped term when the
  ratio is above \<open>1+eps\<close> and the advantage is not negative, or below \<open>1-eps\<close> and the
  advantage is not positive; it is the unclipped term \<open>ratio * advantage\<close> when the
  ratio is above \<open>1+eps\<close> and the advantage is not positive, or below \<open>1-eps\<close> and
  the advantage is not negative.  When every sample of the mini-batch is of the first
  kind, the policy loss is \<open>-mean(clamp(ratio, 1-eps, 1+eps) * advantage)\<close>.
\<close>

theorem minibatch_loss_formulas:
  assumes len: "length lp = B" "length vs = B" "length ent = B" "length olp = B"
      "length ret = B" "length adv = B" "length ov = B"
    and nonempty: "0 < B"
  shows "let L = minibatch_losses eps vc ec lp vs ent olp ret adv ov;
             ratio = (\<lambda>i. exp (lp ! i - olp ! i));
             clipped = (\<lambda>i. clamp (ratio i) (1 - eps) (1 + eps))
         in policy_loss L = - (\<Sum>i<B. min (ratio i * adv ! i) (clipped i * adv ! i)) / real B
          \<and> value_loss L =
                (\<Sum>i<B. max ((vs ! i - ret ! i) ^ 2)
                           ((ov ! i + clamp (vs ! i - ov ! i) (- eps) eps - ret ! i) ^ 2)) / real B
          \<and> entropy_loss L = - (\<Sum>i<B. ent ! i) / real B
          \<and> loss L = policy_loss L + vc * value_loss L + ec * entropy_loss L
          \<and> (\<forall>i<B.
                (1 + eps < ratio i \<and> 0 \<le> adv ! i \<longrightarrow>
                   min (ratio i * adv ! i) (clipped i * adv ! i) = (1 + eps) * adv ! i)
              \<and> (ratio i < 1 - eps \<and> adv ! i \<le> 0 \<and> 0 \<le> eps \<longrightarrow>
                   min (ratio i * adv ! i) (clipped i * adv ! i) = (1 - eps) * adv ! i)
              \<and> (1 + eps < ratio i \<and> adv ! i \<le> 0 \<longrightarrow>
                   min (ratio i * adv ! i) (clipped i * adv ! i) = ratio i * adv ! i)
              \<and> (ratio i < 1 - eps \<and> 0 \<le> adv ! i \<and> 0 \<le> eps \<longrightarrow>
                   min (ratio i * adv ! i) (clipped i * adv ! i) = ratio i * adv ! i))
          \<and> (0 \<le> eps
              \<and> (\<forall>i<B. (1 + eps < ratio i \<and> 0 \<le> adv ! i) \<or> (ratio i < 1 - eps \<and> adv ! i \<le> 0))
              \<longrightarrow> policy_loss L = - (\<Sum>i<B. clipped i * adv ! i) / real B)"
proof -
  let ?L = "minibatch_losses eps vc ec lp vs ent olp ret adv ov"
  let ?ratio = "\<lambda>i. exp (lp ! i - olp ! i)"
  let ?clipped = "\<lambda>i. clamp (?ratio i) (1 - eps) (1 + eps)"
  note s = minibatch_losses_sums [OF len, of eps vc ec]
  have br: "(1 + eps < ?ratio i \<and> 0 \<le> adv ! i \<longrightarrow>
                   min (?ratio i * adv ! i) (?clipped i * adv ! i) = (1 + eps) * adv ! i)
              \<and> (?ratio i < 1 - eps \<and> adv ! i \<le> 0 \<and> 0 \<le> eps \<longrightarrow>
                   min (?ratio i * adv ! i) (?clipped i * adv ! i) = (1 - eps) * adv ! i)
              \<and> (1 + eps < ?ratio i \<and> adv ! i \<le> 0 \<longrightarrow>
                   min (?ratio i * adv ! i) (?clipped i * adv ! i) = ?ratio i * adv ! i)
              \<and> (?ratio i < 1 - eps \<and> 0 \<le> adv ! i \<and> 0 \<le> eps \<longrightarrow>
                   min (?ratio i * adv ! i) (?clipped i * adv ! i) = ?ratio i * adv ! i)" for i
    using clipped_branch [where eps = eps and r = "?ratio i" and A = "adv ! i"] by blast
  have all: "policy_loss ?L = - (\<Sum>i<B. ?clipped i * adv ! i) / real B"
    if e: "0 \<le> eps"
      and o: "\<forall>i<B. (1 + eps < ?ratio i \<and> 0 \<le> adv ! i) \<or> (?ratio i < 1 - eps \<and> adv ! i \<le> 0)"
  proof -
    have "min (?ratio i * adv ! i) (?clipped i * adv ! i) = ?clipped i * adv ! i" if "i < B" for i
    proof -
      from o that have "(1 + eps < ?ratio i \<and> 0 \<le> adv ! i) \<or> (?ratio i < 1 - eps \<and> adv ! i \<le> 0)"
        by blast
      then show ?thesis
      proof
        assume a: "1 + eps < ?ratio i \<and> 0 \<le> adv ! i"
        then have "?clipped i = 1 + eps" by (auto simp add: clamp_def)
        with a br [of i] show ?thesis by simp
      next
        assume a: "?ratio i < 1 - eps \<and> adv ! i \<le> 0"
        with e have "?clipped i = 1 - eps" by (auto simp add: clamp_def)
        with a e br [of i] show ?thesis by simp
      qed
    qed
    then have "(\<Sum>i<B. min (?ratio i * adv ! i) (?clipped i * adv ! i)) = (\<Sum>i<B. ?clipped i * adv ! i)"
      by (intro sum.cong) simp_all
    with s(1) show ?thesis by simp
  qed
  from s br all show ?thesis
    unfolding Let_def by blast
qed

theorem minibatch_loss_formulas_witness:
  "length [- 1 :: real] = 1 \<and> (0 :: nat) < 1
   \<and> 1 + 1 / 5 < exp (- 1 - (- 2 :: real))
   \<and> policy_loss (minibatch_losses (1 / 5) (1 / 2) (1 / 100) [- 1] [2] [1] [- 2] [3] [1] [1])
       = - (6 / 5)
   \<and> value_loss (minibatch_losses (1 / 5) (1 / 2) (1 / 100) [- 1] [2] [1] [- 2] [3] [1] [1])
       = 81 / 25
   \<and> entropy_loss (minibatch_losses (1 / 5) (1 / 2) (1 / 100) [- 1] [2] [1] [- 2] [3] [1] [1])
       = - 1
   \<and> loss (minibatch_losses (1 / 5) (1 / 2) (1 / 100) [- 1] [2] [1] [- 2] [3] [1] [1])
       = - (6 / 5) + 1 / 2 * (81 / 25) + 1 / 100 * (- 1)"
proof -
  have e: "1 + 1 / 5 < exp (- 1 - (- 2 :: real))"
    using exp_ge_add_one_self [of "1 :: real"] by simp
  have l: "length [- 1 :: real] = 1" "length [2 :: real] = 1" "length [1 :: real] = 1"
    "length [- 2 :: real] = 1" "length [3 :: real] = 1" "length [1 :: real] = 1"
    "length [1 :: real] = 1"
    by simp_all
  have p: "(0 :: nat) < 1" by simp
  note f = minibatch_loss_formulas [OF l p, of "1 / 5" "1 / 2" "1 / 100", unfolded Let_def]
  from f e have pl:
    "policy_loss (minibatch_losses (1 / 5) (1 / 2) (1 / 100) [- 1] [2] [1] [- 2] [3] [1] [1]) = - (6 / 5)"
    by simp
  from f have vl:
    "value_loss (minibatch_losses (1 / 5) (1 / 2) (1 / 100) [- 1] [2] [1] [- 2] [3] [1] [1]) = 81 / 25"
    by (simp add: clamp_def power2_eq_square)
  from f have el:
    "entropy_loss (minibatch_losses (1 / 5) (1 / 2) (1 / 100) [- 1] [2] [1] [- 2] [3] [1] [1]) = - 1"
    by simp
  from f have tl:
    "loss (minibatch_losses (1 / 5) (1 / 2) (1 / 100) [- 1] [2] [1] [- 2] [3] [1] [1])
       = policy_loss (minibatch_losses (1 / 5) (1 / 2) (1 / 100) [- 1] [2] [1] [- 2] [3] [1] [1])
         + 1 / 2 * value_loss (minibatch_losses (1 / 5) (1 / 2) (1 / 100) [- 1] [2] [1] [- 2] [3] [1] [1])
         + 1 / 100 * entropy_loss (minibatch_losses (1 / 5) (1 / 2) (1 / 100) [- 1] [2] [1] [- 2] [3] [1] [1])"
    by blast
  from l(1) p e pl vl el tl show ?thesis by simp
qed

text \<open>
  The claim as stated (a ratio outside the range always selects the clipped branch)
  fails: for one sample with old log-probability \<open>-2\<close>, new log-probability \<open>-1\<close>
  (ratio \<open>e > 1.2\<close>) and advantage \<open>-1\<close>, the policy loss is \<open>e\<close>, the unclipped
  term, where the clipped branch would give \<open>1.2\<close>.
\<close>

theorem unclipped_branch_outside_range:
  "\<not> (1 - 1 / 5 \<le> exp (- 1 - (- 2 :: real)) \<and> exp (- 1 - (- 2 :: real)) \<le> 1 + 1 / 5)
   \<and> policy_loss (minibatch_losses (1 / 5) (1 / 2) (1 / 100) [- 1] [2] [1] [- 2] [3] [- 1] [1])
       = exp 1
   \<and> - tensor_mean (map2 (*) (map (\<lambda>r. clamp r (1 - 1 / 5) (1 + 1 / 5)) [exp (- 1 - (- 2))]) [- 1])
       = 6 / 5
   \<and> exp 1 \<noteq> (6 / 5 :: real)"
proof -
  have e: "2 \<le> exp (1 :: real)"
    using exp_ge_add_one_self [of "1 :: real"] by simp
  then have c: "clamp (exp 1) (4 / 5) (6 / 5) = 6 / 5"
    by (simp add: clamp_def)
  from e c show ?thesis
    by (simp add: minibatch_losses_def tensor_mean_def Let_def)
qed

end
